theory Spec2Isabelle
  imports Main "HOL-Library.AList"
begin

section \<open>JavaScript values\<close>

text \<open>
  The TypeScript sources run on JavaScript values. A number is an IEEE double; the model
  keeps what the program can observe of it: whether it is \<open>NaN\<close>, an infinity, zero, or a
  finite non-zero number, its sign, and the decimal digits that \<open>Number.prototype.toString\<close>
  prints. \<open>Decimal neg ds n\<close> is the number \<open>0.d\<^sub>1d\<^sub>2\<dots>d\<^sub>k \<times> 10\<^sup>n\<close> (negated when \<open>neg\<close>), the
  triple \<open>(n, k, s)\<close> of the language standard's \<open>Number::toString\<close>. The binary rounding
  of the mantissa is not modelled (a decimal text of up to 15 significant digits denotes
  exactly the digits given); overflow to an infinity and underflow to zero are.
  \<open>-0\<close> and \<open>+0\<close> are one value \<open>Zero\<close>, as \<open>===\<close> has it.
\<close>

datatype jsnum = NaN | Infinite bool | Zero | Decimal bool "nat list" int

datatype jsval =
    VUndefined
  | VNull
  | VBool bool
  | VNum jsnum
  | VStr string
  | VArr "jsval list"
  | VObj "(string \<times> jsval) list"

text \<open>
  What a call can throw. \<open>ServiceError\<close> is a rejection of the remote call, with its
  message. \<open>Unmodelled\<close> is not a JavaScript exception: it marks an input on which this
  model gives no answer (a JSON text naming a code unit above \<open>U+00FF\<close>).
\<close>

datatype exn = SyntaxError | TypeError | ServiceError string | Unmodelled

text \<open>Truthiness, and \<open>a || b\<close>.\<close>

fun truthy :: "jsval \<Rightarrow> bool" where
  "truthy VUndefined = False"
| "truthy VNull = False"
| "truthy (VBool b) = b"
| "truthy (VNum n) = (n \<noteq> NaN \<and> n \<noteq> Zero)"
| "truthy (VStr s) = (s \<noteq> [])"
| "truthy (VArr xs) = True"
| "truthy (VObj fs) = True"

definition js_or :: "jsval \<Rightarrow> jsval \<Rightarrow> jsval" where
  "js_or a b = (if truthy a then a else b)"

text \<open>
  \<open>result.k\<close> for the five property names the extraction client reads. Reading a property
  of \<open>null\<close> or \<open>undefined\<close> throws a \<open>TypeError\<close>; an object yields its own property
  or \<open>undefined\<close>; a string, number, boolean or array has none of the five names on its
  prototype.
\<close>

fun getProp :: "jsval \<Rightarrow> string \<Rightarrow> exn + jsval" where
  "getProp VUndefined k = Inl TypeError"
| "getProp VNull k = Inl TypeError"
| "getProp (VObj fs) k = Inr (case map_of fs k of Some v \<Rightarrow> v | None \<Rightarrow> VUndefined)"
| "getProp v k = Inr VUndefined"

section \<open>Numbers and their decimal texts\<close>

definition is_digit :: "char \<Rightarrow> bool" where
  "is_digit c = (48 \<le> (of_char c :: nat) \<and> (of_char c :: nat) \<le> 57)"

definition digit_val :: "char \<Rightarrow> nat" where
  "digit_val c = of_char c - 48"

definition digit_char :: "nat \<Rightarrow> char" where
  "digit_char d = char_of (48 + d)"

definition digits_val :: "nat list \<Rightarrow> int" where
  "digits_val ds = foldl (\<lambda>a d. 10 * a + int d) 0 ds"

text \<open>
  Rounding to a double overflows to an infinity from \<open>2\<^sup>1\<^sup>0\<^sup>2\<^sup>4 - 2\<^sup>9\<^sup>7\<^sup>0\<close> on (half an ulp
  above the largest double, the tie going to the even mantissa) and underflows to zero up
  to \<open>2\<^sup>-\<^sup>1\<^sup>0\<^sup>7\<^sup>5\<close> (half the smallest denormal). The value of \<open>ds\<close> with the point at
  \<open>n\<close> is \<open>digits_val ds \<times> 10\<^sup>n\<^sup>-\<^sup>k\<close>.
\<close>

definition overflows :: "nat list \<Rightarrow> int \<Rightarrow> bool" where
  "overflows ds n =
     (let m = digits_val ds; e = n - int (length ds)
      in if 0 \<le> e then 2 ^ 1024 - 2 ^ 970 \<le> m * 10 ^ nat e
         else (2 ^ 1024 - 2 ^ 970) * 10 ^ nat (- e) \<le> m)"

definition underflows :: "nat list \<Rightarrow> int \<Rightarrow> bool" where
  "underflows ds n =
     (let m = digits_val ds; e = n - int (length ds)
      in if 0 \<le> e then m * 10 ^ nat e * 2 ^ 1075 \<le> 1
         else m * 2 ^ 1075 \<le> 10 ^ nat (- e))"

definition to_double :: "bool \<Rightarrow> nat list \<Rightarrow> int \<Rightarrow> jsnum" where
  "to_double neg ds n =
     (if overflows ds n then Infinite neg
      else if underflows ds n then Zero
      else Decimal neg ds n)"

definition strip_zeros :: "nat list \<Rightarrow> nat list" where
  "strip_zeros ds = rev (dropWhile (\<lambda>d. d = 0) (rev (dropWhile (\<lambda>d. d = 0) ds)))"

text \<open>
  The number a decimal literal denotes: \<open>ds\<close> are all its digits (integer part, then
  fraction) and \<open>p\<close> is where the point stands after the exponent is applied, counted from
  the first digit.
\<close>

definition number_value :: "bool \<Rightarrow> nat list \<Rightarrow> int \<Rightarrow> jsnum" where
  "number_value neg ds p =
     (if strip_zeros ds = [] then Zero
      else to_double neg (strip_zeros ds) (p - int (length (takeWhile (\<lambda>d. d = 0) ds))))"

text \<open>An exponent's digits with their optional sign: \<open>SignedInteger\<close>.\<close>

definition signed_integer :: "string \<Rightarrow> (int \<times> string) option" where
  "signed_integer cs =
     (let neg = (cs \<noteq> [] \<and> hd cs = CHR ''-'');
          r = (if cs \<noteq> [] \<and> (hd cs = CHR ''-'' \<or> hd cs = CHR ''+'') then tl cs else cs);
          ds = takeWhile is_digit r
      in if ds = [] then None
         else Some ((if neg then - 1 else 1) * digits_val (map digit_val ds),
                    dropWhile is_digit r))"

definition exponent_part :: "string \<Rightarrow> (int \<times> string) option" where
  "exponent_part cs =
     (if cs \<noteq> [] \<and> (hd cs = CHR ''e'' \<or> hd cs = CHR ''E'') then signed_integer (tl cs)
      else None)"

text \<open>Decimal digits of a natural number, most significant first.\<close>

function digits_of :: "int \<Rightarrow> nat list" where
  "digits_of i = (if i < 10 then [nat i] else digits_of (i div 10) @ [nat (i mod 10)])"
  by pat_completeness auto
termination
  by (relation "measure nat") auto

declare digits_of.simps [simp del]

definition show_int :: "int \<Rightarrow> string" where
  "show_int i =
     (if i < 0 then CHR ''-'' # map digit_char (digits_of (- i)) else map digit_char (digits_of i))"

definition show_nat :: "nat \<Rightarrow> string" where
  "show_nat n = show_int (int n)"

text \<open>
  \<open>Number.prototype.toString()\<close> in radix 10, the standard's \<open>Number::toString\<close>: plain
  digits for \<open>-5 \<le> n \<le> 21\<close>, exponent notation outside.
\<close>

definition decimal_text :: "nat list \<Rightarrow> int \<Rightarrow> string" where
  "decimal_text ds n =
     (let k = int (length ds); cs = map digit_char ds
      in if k \<le> n \<and> n \<le> 21 then cs @ replicate (nat (n - k)) (CHR ''0'')
         else if 0 < n \<and> n \<le> 21 then take (nat n) cs @ CHR ''.'' # drop (nat n) cs
         else if - 6 < n \<and> n \<le> 0 then ''0.'' @ replicate (nat (- n)) (CHR ''0'') @ cs
         else (if k = 1 then cs else hd cs # CHR ''.'' # tl cs)
              @ CHR ''e'' # (if n - 1 < 0 then CHR ''-'' else CHR ''+'') # show_nat (nat \<bar>n - 1\<bar>))"

fun num_toString :: "jsnum \<Rightarrow> string" where
  "num_toString NaN = ''NaN''"
| "num_toString (Infinite neg) = (if neg then ''-Infinity'' else ''Infinity'')"
| "num_toString Zero = ''0''"
| "num_toString (Decimal neg ds n) = (if neg then CHR ''-'' # decimal_text ds n else decimal_text ds n)"

text \<open>
  \<open>parseFloat\<close>: leading white space is dropped, then the longest prefix that is a
  \<open>StrDecimalLiteral\<close> is read (a sign, then \<open>Infinity\<close> or digits with an optional
  fraction and exponent); whatever follows is ignored, and \<open>NaN\<close> is the result when no
  prefix is a literal.
\<close>

definition is_js_space :: "char \<Rightarrow> bool" where
  "is_js_space c = ((of_char c :: nat) \<in> {9, 10, 11, 12, 13, 32, 160})"

definition str_unsigned :: "bool \<Rightarrow> string \<Rightarrow> jsnum" where
  "str_unsigned neg r =
     (if take 8 r = ''Infinity'' then Infinite neg
      else
        let ip = takeWhile is_digit r;
            r1 = dropWhile is_digit r;
            dot = (r1 \<noteq> [] \<and> hd r1 = CHR ''.'');
            fp = (if dot then takeWhile is_digit (tl r1) else []);
            r2 = (if dot then dropWhile is_digit (tl r1) else r1)
        in if ip = [] \<and> fp = [] then NaN
           else number_value neg (map digit_val (ip @ fp))
                  (int (length ip) + (case exponent_part r2 of Some (e, r3) \<Rightarrow> e | None \<Rightarrow> 0)))"

definition parseFloat :: "string \<Rightarrow> jsnum" where
  "parseFloat s =
     (let t = dropWhile is_js_space s
      in if t \<noteq> [] \<and> hd t = CHR ''-'' then str_unsigned True (tl t)
         else if t \<noteq> [] \<and> hd t = CHR ''+'' then str_unsigned False (tl t)
         else str_unsigned False t)"

section \<open>Strings and dates\<close>

text \<open>
  Strings are lists of 8-bit code units. \<open>s.split(sep)\<close> with a one-character separator,
  and \<open>a[i]\<close>, which is \<open>undefined\<close> (\<open>None\<close>) past the end.
\<close>

fun js_split :: "char \<Rightarrow> string \<Rightarrow> string list" where
  "js_split sep [] = [[]]"
| "js_split sep (c # cs) =
     (if c = sep then [] # js_split sep cs
      else (case js_split sep cs of [] \<Rightarrow> [[c]] | x # xs \<Rightarrow> (c # x) # xs))"

definition js_index :: "'a list \<Rightarrow> nat \<Rightarrow> 'a option" where
  "js_index xs i = (if i < length xs then Some (xs ! i) else None)"

text \<open>
  \<open>new Date().toISOString()\<close> for the clock reading \<open>t\<close>, in milliseconds since the epoch:
  the UTC calendar date and time of day, the year with four digits from 0 to 9999 and
  with a sign and six digits outside.
\<close>

definition pad :: "nat \<Rightarrow> nat \<Rightarrow> string" where
  "pad w n = replicate (w - length (show_nat n)) (CHR ''0'') @ show_nat n"

definition civil_from_days :: "int \<Rightarrow> int \<times> nat \<times> nat" where
  "civil_from_days z0 =
     (let z = z0 + 719468;
          era = z div 146097;
          doe = z - era * 146097;
          yoe = (doe - doe div 1460 + doe div 36524 - doe div 146096) div 365;
          doy = doe - (365 * yoe + yoe div 4 - yoe div 100);
          mp = (5 * doy + 2) div 153;
          d = doy - (153 * mp + 2) div 5 + 1;
          m = (if mp < 10 then mp + 3 else mp - 9);
          y = yoe + era * 400 + (if m \<le> 2 then 1 else 0)
      in (y, nat m, nat d))"

definition iso_year :: "int \<Rightarrow> string" where
  "iso_year y =
     (if 0 \<le> y \<and> y \<le> 9999 then pad 4 (nat y)
      else (if y < 0 then CHR ''-'' else CHR ''+'') # pad 6 (nat \<bar>y\<bar>))"

definition utc_date :: "int \<Rightarrow> string" where
  "utc_date t =
     (let (y, m, d) = civil_from_days (t div 86400000)
      in iso_year y @ ''-'' @ pad 2 m @ ''-'' @ pad 2 d)"

definition utc_time :: "int \<Rightarrow> string" where
  "utc_time t =
     (let ms = t mod 86400000
      in pad 2 (nat (ms div 3600000)) @ '':'' @ pad 2 (nat (ms div 60000 mod 60)) @ '':''
         @ pad 2 (nat (ms div 1000 mod 60)) @ ''.'' @ pad 3 (nat (ms mod 1000)))"

definition toISOString :: "int \<Rightarrow> string" where
  "toISOString t = utc_date t @ ''T'' @ utc_time t @ ''Z''"

section \<open>JSON\<close>

text \<open>
  \<open>JSON.parse\<close> as a recursive-descent parser over the text. A parser returns the value
  read and the rest of the text, or reports that the text is malformed (\<open>JSON.parse\<close>
  throws a \<open>SyntaxError\<close>). The recursion of values, array elements and object members
  is driven by a fuel counter; \<open>JSON_parse\<close> starts with more fuel than any text can use.
\<close>

datatype 'a parsed = Parsed 'a string | Malformed | Outside | NoFuel

definition is_json_ws :: "char \<Rightarrow> bool" where
  "is_json_ws c = ((of_char c :: nat) \<in> {9, 10, 13, 32})"

definition skip_ws :: "string \<Rightarrow> string" where
  "skip_ws cs = dropWhile is_json_ws cs"

definition hex_val :: "char \<Rightarrow> nat option" where
  "hex_val c =
     (let n = (of_char c :: nat)
      in if 48 \<le> n \<and> n \<le> 57 then Some (n - 48)
         else if 65 \<le> n \<and> n \<le> 70 then Some (n - 55)
         else if 97 \<le> n \<and> n \<le> 102 then Some (n - 87)
         else None)"

fun hex4 :: "string \<Rightarrow> nat option" where
  "hex4 [a, b, c, d] =
     (case (hex_val a, hex_val b, hex_val c, hex_val d) of
        (Some w, Some x, Some y, Some z) \<Rightarrow> Some (4096 * w + 256 * x + 16 * y + z)
      | _ \<Rightarrow> None)"
| "hex4 cs = None"

definition escape_char :: "char \<Rightarrow> char option" where
  "escape_char e =
     (if e = CHR 0x22 then Some (CHR 0x22)
      else if e = CHR 0x5C then Some (CHR 0x5C)
      else if e = CHR ''/'' then Some (CHR ''/'')
      else if e = CHR ''b'' then Some (CHR 0x08)
      else if e = CHR ''f'' then Some (CHR 0x0C)
      else if e = CHR ''n'' then Some (CHR 0x0A)
      else if e = CHR ''r'' then Some (CHR 0x0D)
      else if e = CHR ''t'' then Some (CHR 0x09)
      else None)"

text \<open>The characters of a string literal, after its opening quote.\<close>

function parse_chars :: "string \<Rightarrow> string parsed" where
  "parse_chars [] = Malformed"
| "parse_chars (c # cs) =
     (if c = CHR 0x22 then Parsed [] cs
      else if c = CHR 0x5C then
        (case cs of
           [] \<Rightarrow> Malformed
         | e # r \<Rightarrow>
             if e = CHR ''u'' then
               (case hex4 (take 4 r) of
                  None \<Rightarrow> Malformed
                | Some n \<Rightarrow>
                    if n < 256 then map_parsed ((#) (char_of n)) (parse_chars (drop 4 r))
                    else Outside)
             else
               (case escape_char e of
                  None \<Rightarrow> Malformed
                | Some ch \<Rightarrow> map_parsed ((#) ch) (parse_chars r)))
      else if (of_char c :: nat) < 32 then Malformed
      else map_parsed ((#) c) (parse_chars cs))"
  by pat_completeness auto
termination
  by (relation "measure length") auto

text \<open>
  A number literal: an optional \<open>-\<close>, an integer part without a leading zero, an optional fraction
  with at least one digit, an optional exponent with at least one digit. A digit, a point
  or an exponent letter that cannot continue the literal cannot follow it either, in any
  context, so such a text is malformed here already.
\<close>

definition number_body :: "bool \<Rightarrow> string \<Rightarrow> jsnum parsed" where
  "number_body neg r =
     (let ip = takeWhile is_digit r;
          r1 = dropWhile is_digit r;
          dot = (r1 \<noteq> [] \<and> hd r1 = CHR ''.'');
          fp = (if dot then takeWhile is_digit (tl r1) else []);
          r2 = (if dot then dropWhile is_digit (tl r1) else r1);
          ex = (r2 \<noteq> [] \<and> (hd r2 = CHR ''e'' \<or> hd r2 = CHR ''E''))
      in if ip = [] \<or> (1 < length ip \<and> hd ip = CHR ''0'') \<or> (dot \<and> fp = []) then Malformed
         else if ex then
           (case exponent_part r2 of
              None \<Rightarrow> Malformed
            | Some (e, r3) \<Rightarrow>
                Parsed (number_value neg (map digit_val (ip @ fp)) (int (length ip) + e)) r3)
         else Parsed (number_value neg (map digit_val (ip @ fp)) (int (length ip))) r2)"

definition parse_number :: "string \<Rightarrow> jsnum parsed" where
  "parse_number cs =
     (if cs \<noteq> [] \<and> hd cs = CHR ''-'' then number_body True (tl cs) else number_body False cs)"

text \<open>
  Values, the elements of an array after its \<open>[\<close>, and the members of an object after
  its \<open>{\<close>. A repeated key keeps its first place and takes the later value, as
  \<open>JSON.parse\<close> builds the object.
\<close>

fun parse_value :: "nat \<Rightarrow> string \<Rightarrow> jsval parsed"
  and parse_elements :: "nat \<Rightarrow> string \<Rightarrow> jsval list parsed"
  and parse_members :: "nat \<Rightarrow> (string \<times> jsval) list \<Rightarrow> string \<Rightarrow> (string \<times> jsval) list parsed"
where
  "parse_value 0 cs = NoFuel"
| "parse_value (Suc f) cs =
     (if cs = [] then Malformed
      else if hd cs = CHR 0x22 then map_parsed VStr (parse_chars (tl cs))
      else if hd cs = CHR ''['' then
        (if skip_ws (tl cs) \<noteq> [] \<and> hd (skip_ws (tl cs)) = CHR '']''
         then Parsed (VArr []) (tl (skip_ws (tl cs)))
         else map_parsed VArr (parse_elements f (skip_ws (tl cs))))
      else if hd cs = CHR ''{'' then
        (if skip_ws (tl cs) \<noteq> [] \<and> hd (skip_ws (tl cs)) = CHR ''}''
         then Parsed (VObj []) (tl (skip_ws (tl cs)))
         else map_parsed VObj (parse_members f [] (skip_ws (tl cs))))
      else if take 4 cs = ''true'' then Parsed (VBool True) (drop 4 cs)
      else if take 5 cs = ''false'' then Parsed (VBool False) (drop 5 cs)
      else if take 4 cs = ''null'' then Parsed VNull (drop 4 cs)
      else map_parsed VNum (parse_number cs))"
| "parse_elements 0 cs = NoFuel"
| "parse_elements (Suc f) cs =
     (case parse_value f cs of
        Parsed v r \<Rightarrow>
          (if skip_ws r \<noteq> [] \<and> hd (skip_ws r) = CHR '','' then
             map_parsed ((#) v) (parse_elements f (skip_ws (tl (skip_ws r))))
           else if skip_ws r \<noteq> [] \<and> hd (skip_ws r) = CHR '']'' then Parsed [v] (tl (skip_ws r))
           else Malformed)
      | Malformed \<Rightarrow> Malformed
      | Outside \<Rightarrow> Outside
      | NoFuel \<Rightarrow> NoFuel)"
| "parse_members 0 acc cs = NoFuel"
| "parse_members (Suc f) acc cs =
     (if cs = [] \<or> hd cs \<noteq> CHR 0x22 then Malformed
      else
        (case parse_chars (tl cs) of
           Parsed k r1 \<Rightarrow>
             (if skip_ws r1 = [] \<or> hd (skip_ws r1) \<noteq> CHR '':'' then Malformed
              else
                (case parse_value f (skip_ws (tl (skip_ws r1))) of
                   Parsed v r2 \<Rightarrow>
                     (if skip_ws r2 \<noteq> [] \<and> hd (skip_ws r2) = CHR '','' then
                        parse_members f (AList.update k v acc) (skip_ws (tl (skip_ws r2)))
                      else if skip_ws r2 \<noteq> [] \<and> hd (skip_ws r2) = CHR ''}'' then
                        Parsed (AList.update k v acc) (tl (skip_ws r2))
                      else Malformed)
                 | Malformed \<Rightarrow> Malformed
                 | Outside \<Rightarrow> Outside
                 | NoFuel \<Rightarrow> NoFuel))
         | Malformed \<Rightarrow> Malformed
         | Outside \<Rightarrow> Outside
         | NoFuel \<Rightarrow> NoFuel))"

definition JSON_parse :: "string \<Rightarrow> jsval parsed" where
  "JSON_parse s =
     (case parse_value (Suc (2 * length s)) (skip_ws s) of
        Parsed v r \<Rightarrow> (if skip_ws r = [] then Parsed v [] else Malformed)
      | Malformed \<Rightarrow> Malformed
      | Outside \<Rightarrow> Outside
      | NoFuel \<Rightarrow> NoFuel)"

text \<open>
  \<open>JSON.stringify\<close> without indentation. A string is quoted with the short escapes and
  \<open>\u00XX\<close> for the other control characters; a number that is not finite prints as
  \<open>null\<close>; an \<open>undefined\<close> array element prints as \<open>null\<close> and an \<open>undefined\<close> property is
  left out. Properties print in the order the object holds them.
\<close>

definition hex_digit :: "nat \<Rightarrow> char" where
  "hex_digit n = (if n < 10 then char_of (48 + n) else char_of (87 + n))"

definition quote_char :: "char \<Rightarrow> string" where
  "quote_char c =
     (if c = CHR 0x22 then [CHR 0x5C, CHR 0x22]
      else if c = CHR 0x5C then [CHR 0x5C, CHR 0x5C]
      else if c = CHR 0x08 then [CHR 0x5C, CHR ''b'']
      else if c = CHR 0x0C then [CHR 0x5C, CHR ''f'']
      else if c = CHR 0x0A then [CHR 0x5C, CHR ''n'']
      else if c = CHR 0x0D then [CHR 0x5C, CHR ''r'']
      else if c = CHR 0x09 then [CHR 0x5C, CHR ''t'']
      else if (of_char c :: nat) < 32 then
        [CHR 0x5C, CHR ''u'', CHR ''0'', CHR ''0'',
         hex_digit (of_char c div 16), hex_digit (of_char c mod 16)]
      else [c])"

definition quote :: "string \<Rightarrow> string" where
  "quote s = CHR 0x22 # concat (map quote_char s) @ [CHR 0x22]"

fun join :: "string \<Rightarrow> string list \<Rightarrow> string" where
  "join sep [] = []"
| "join sep [x] = x"
| "join sep (x # y # ys) = x @ sep @ join sep (y # ys)"

fun stringify :: "jsval \<Rightarrow> string" where
  "stringify VUndefined = ''null''"
| "stringify VNull = ''null''"
| "stringify (VBool b) = (if b then ''true'' else ''false'')"
| "stringify (VNum n) =
     (case n of NaN \<Rightarrow> ''null'' | Infinite neg \<Rightarrow> ''null'' | Zero \<Rightarrow> ''0''
      | Decimal neg ds p \<Rightarrow> num_toString n)"
| "stringify (VStr s) = quote s"
| "stringify (VArr xs) = ''['' @ join '','' (map stringify xs) @ '']''"
| "stringify (VObj fs) =
     ''{'' @ join '',''
        (map (\<lambda>p. quote (fst p) @ '':'' @ stringify (snd p))
           (filter (\<lambda>p. snd p \<noteq> VUndefined) fs)) @ ''}''"

text \<open>\<open>JSON.stringify(v)\<close> is \<open>undefined\<close> for \<open>undefined\<close>, and a text otherwise.\<close>

definition JSON_stringify :: "jsval \<Rightarrow> string option" where
  "JSON_stringify v = (if v = VUndefined then None else Some (stringify v))"

section \<open>The extraction client\<close>

text \<open>
  \<open>processReceipt\<close> of the service module. The remote call
  \<open>ai.models.generateContent\<close> is a parameter: it takes the request and either rejects
  (\<open>Inl\<close>) or resolves to a response whose \<open>text\<close> is a string or \<open>undefined\<close>
  (\<open>None\<close>). The clock \<open>now\<close> is what \<open>new Date()\<close> reads, in milliseconds since the
  epoch.
\<close>

record request =
  model :: string
  inlineData_mimeType :: string
  inlineData_data :: string
  prompt :: string
  responseMimeType :: string
  required :: "string list"

type_synonym service = "request \<Rightarrow> exn + string option"

record extraction =
  x_date :: jsval
  x_merchant :: jsval
  x_total :: jsval
  x_category :: jsval
  x_paymentSource :: jsval

text \<open>\<open>base64Image.split(',')[1] || base64Image\<close>\<close>

definition imageData :: "string \<Rightarrow> string" where
  "imageData base64Image =
     (case js_index (js_split (CHR '','') base64Image) 1 of
        Some s \<Rightarrow> if s \<noteq> [] then s else base64Image
      | None \<Rightarrow> base64Image)"

definition generateContent_request :: "string \<Rightarrow> request" where
  "generateContent_request base64Image =
     \<lparr> model = ''gemini-3-flash-preview'',
       inlineData_mimeType = ''image/jpeg'',
       inlineData_data = imageData base64Image,
       prompt = ''Analyze this receipt image and extract the key details in JSON format. If information is missing, provide your best guess or an empty string.'',
       responseMimeType = ''application/json'',
       required = [''date'', ''merchant'', ''total'', ''category''] \<rparr>"

text \<open>\<open>response.text || '{}'\<close>\<close>

definition response_text :: "string option \<Rightarrow> string" where
  "response_text resp = (case resp of Some t \<Rightarrow> if t \<noteq> [] then t else ''{}'' | None \<Rightarrow> ''{}'')"

text \<open>\<open>new Date().toISOString().split('T')[0]\<close>\<close>

definition today :: "int \<Rightarrow> string" where
  "today now = (case js_split (CHR ''T'') (toISOString now) of d # ds \<Rightarrow> d | [] \<Rightarrow> [])"

text \<open>A later property read of a value whose first read did not throw.\<close>

definition readProp :: "jsval \<Rightarrow> string \<Rightarrow> jsval" where
  "readProp v k = (case getProp v k of Inr x \<Rightarrow> x | Inl e \<Rightarrow> VUndefined)"

text \<open>
  The \<open>catch\<close> block logs the error and throws it again, so every exception of the
  \<open>try\<close> block is the rejection of \<open>processReceipt\<close>.
\<close>

definition processReceipt :: "service \<Rightarrow> int \<Rightarrow> string \<Rightarrow> exn + extraction" where
  "processReceipt ai now base64Image =
     (case ai (generateContent_request base64Image) of
        Inl e \<Rightarrow> Inl e
      | Inr resp \<Rightarrow>
          (case JSON_parse (response_text resp) of
             Malformed \<Rightarrow> Inl SyntaxError
           | Outside \<Rightarrow> Inl Unmodelled
           | NoFuel \<Rightarrow> Inl Unmodelled
           | Parsed result r \<Rightarrow>
               (case getProp result ''date'' of
                  Inl e \<Rightarrow> Inl e
                | Inr d \<Rightarrow>
                    Inr \<lparr> x_date = js_or d (VStr (today now)),
                          x_merchant = js_or (readProp result ''merchant'') (VStr ''Unknown Merchant''),
                          x_total = js_or (readProp result ''total'') (VNum Zero),
                          x_category = js_or (readProp result ''category'') (VStr ''Other''),
                          x_paymentSource = js_or (readProp result ''paymentSource'') (VStr ''Unknown'') \<rparr>)))"

text \<open>
  The specification's default for a missing date, in its words: today's date as an ISO
  calendar day in the caller's local zone. \<open>offset\<close> is the zone's
  \<open>getTimezoneOffset()\<close>, the minutes that local time is behind UTC.
\<close>

definition spec_local_today :: "int \<Rightarrow> int \<Rightarrow> string" where
  "spec_local_today now offset = utc_date (now - offset * 60000)"

text \<open>
  The characters of a base64 payload, as \<open>canvas.toDataURL\<close> and
  \<open>FileReader.readAsDataURL\<close> produce after the \<open>data:\<dots>;base64,\<close> prefix.
\<close>

definition is_base64_char :: "char \<Rightarrow> bool" where
  "is_base64_char c =
     (let n = (of_char c :: nat)
      in (65 \<le> n \<and> n \<le> 90) \<or> (97 \<le> n \<and> n \<le> 122) \<or> (48 \<le> n \<and> n \<le> 57)
         \<or> c = CHR ''+'' \<or> c = CHR ''/'' \<or> c = CHR ''='')"

section \<open>Receipts and the edit form\<close>

text \<open>
  \<open>ReceiptData\<close>, \<open>Category\<close>, and \<open>Partial<ReceiptData>\<close> (the form's
  \<open>initialData\<close>), with the types the interface declares. The field \<open>id\<close> is \<open>rid\<close>
  here.
\<close>

datatype status = Pending | Synced | Error

datatype Category = FOOD | TRANSPORT | SHOPPING | UTILITIES | ENTERTAINMENT | OTHER

fun category_text :: "Category \<Rightarrow> string" where
  "category_text FOOD = ''Food & Dining''"
| "category_text TRANSPORT = ''Transport''"
| "category_text SHOPPING = ''Shopping''"
| "category_text UTILITIES = ''Utilities''"
| "category_text ENTERTAINMENT = ''Entertainment''"
| "category_text OTHER = ''Other''"

definition categories :: "string list" where
  "categories = map category_text [FOOD, TRANSPORT, SHOPPING, UTILITIES, ENTERTAINMENT, OTHER]"

record receipt =
  rid :: string
  date :: string
  merchant :: string
  total :: jsnum
  paymentSource :: string
  category :: string
  status :: status
  imageUrl :: "string option"

record draft =
  d_id :: "string option"
  d_date :: "string option"
  d_merchant :: "string option"
  d_total :: "jsnum option"
  d_paymentSource :: "string option"
  d_category :: "string option"
  d_status :: "status option"
  d_imageUrl :: "string option"

record formData =
  f_date :: string
  f_merchant :: string
  f_total :: string
  f_category :: string
  f_paymentSource :: string

text \<open>\<open>a || b\<close> for an optional string \<open>a\<close>, and for a number \<open>a\<close>.\<close>

definition str_or :: "string option \<Rightarrow> string \<Rightarrow> string" where
  "str_or a b = (case a of Some s \<Rightarrow> if s \<noteq> [] then s else b | None \<Rightarrow> b)"

definition num_or :: "jsnum \<Rightarrow> jsnum \<Rightarrow> jsnum" where
  "num_or a b = (if a = NaN \<or> a = Zero then b else a)"

text \<open>The initial state of the form: the argument of \<open>useState\<close> in \<open>ReceiptEdit\<close>.\<close>

definition ReceiptEdit :: "int \<Rightarrow> draft \<Rightarrow> formData" where
  "ReceiptEdit now initialData =
     \<lparr> f_date = str_or (d_date initialData) (today now),
       f_merchant = str_or (d_merchant initialData) [],
       f_total = str_or (map_option num_toString (d_total initialData)) [],
       f_category = str_or (d_category initialData) (category_text OTHER),
       f_paymentSource = str_or (d_paymentSource initialData) ''Credit Card'' \<rparr>"

text \<open>
  The value that the Total control delivers as \<open>e.target.value\<close>. It is an
  \<open><input type="number">\<close>: its value is the text the user entered when that is a valid
  floating-point number of the HTML standard (an optional minus sign; then digits, or
  optional digits, a point and digits; then optionally \<open>e\<close> or \<open>E\<close>, an optional sign and
  digits) and the empty string otherwise.
\<close>

definition valid_exponent :: "string \<Rightarrow> bool" where
  "valid_exponent r =
     (r = [] \<or>
      ((hd r = CHR ''e'' \<or> hd r = CHR ''E'') \<and>
       (let r1 = tl r;
            r2 = (if r1 \<noteq> [] \<and> (hd r1 = CHR ''-'' \<or> hd r1 = CHR ''+'') then tl r1 else r1)
        in r2 \<noteq> [] \<and> list_all is_digit r2)))"

definition valid_number :: "string \<Rightarrow> bool" where
  "valid_number s =
     (let r = (if s \<noteq> [] \<and> hd s = CHR ''-'' then tl s else s);
          ip = takeWhile is_digit r;
          r1 = dropWhile is_digit r
      in if r1 \<noteq> [] \<and> hd r1 = CHR ''.''
         then takeWhile is_digit (tl r1) \<noteq> [] \<and> valid_exponent (dropWhile is_digit (tl r1))
         else ip \<noteq> [] \<and> valid_exponent r1)"

definition number_input :: "string \<Rightarrow> string" where
  "number_input entered = (if valid_number entered then entered else [])"

text \<open>
  The \<open>onChange\<close> handlers: each replaces one field by the control's value. A change of
  the total names the text the user entered in the number control. The category control
  is a \<open>select\<close> over \<open>Object.values(Category)\<close>.
\<close>

datatype change =
    ChangeMerchant string
  | ChangeTotal string
  | ChangeDate string
  | ChangeCategory Category
  | ChangePaymentSource string

fun onChange :: "formData \<Rightarrow> change \<Rightarrow> formData" where
  "onChange fd (ChangeMerchant v) = fd\<lparr>f_merchant := v\<rparr>"
| "onChange fd (ChangeTotal entered) = fd\<lparr>f_total := number_input entered\<rparr>"
| "onChange fd (ChangeDate v) = fd\<lparr>f_date := v\<rparr>"
| "onChange fd (ChangeCategory c) = fd\<lparr>f_category := category_text c\<rparr>"
| "onChange fd (ChangePaymentSource v) = fd\<lparr>f_paymentSource := v\<rparr>"

text \<open>
  \<open>handleSubmit\<close>: the record handed to \<open>onSave\<close>. \<open>now\<close> is \<open>Date.now()\<close>.
\<close>

definition handleSubmit :: "int \<Rightarrow> draft \<Rightarrow> formData \<Rightarrow> receipt" where
  "handleSubmit now initialData fd =
     \<lparr> rid = str_or (d_id initialData) (show_int now),
       date = f_date fd,
       merchant = f_merchant fd,
       total = num_or (parseFloat (f_total fd)) Zero,
       paymentSource = f_paymentSource fd,
       category = f_category fd,
       status = Pending,
       imageUrl = d_imageUrl initialData \<rparr>"

section \<open>The application state\<close>

datatype View = Scan | History | Edit | Settings

text \<open>
  \<open>currentEdit\<close> holds \<open>{ ...extractedData, imageUrl: base64, id: Date.now().toString() }\<close>:
  the extraction extended by two fields.
\<close>

record editing = extraction +
  e_imageUrl :: string
  e_id :: string

text \<open>
  The state of \<open>App\<close>, with the two things outside it that its handlers touch: the
  \<open>localStorage\<close> slot \<open>scansheet_data\<close> (\<open>None\<close> when absent) and the notices shown with
  \<open>alert\<close>, oldest first. \<open>timers\<close> counts the \<open>setTimeout\<close> callbacks of \<open>simulateSync\<close>
  that are scheduled and have not run.
\<close>

record app =
  activeView :: View
  receipts :: "receipt list"
  isScanning :: bool
  isProcessing :: bool
  currentEdit :: "editing option"
  storage :: "string option"
  alerts :: "string list"
  timers :: nat

text \<open>A receipt as the object \<open>handleSubmit\<close> builds, its properties in that order.\<close>

fun status_text :: "status \<Rightarrow> string" where
  "status_text Pending = ''pending''"
| "status_text Synced = ''synced''"
| "status_text Error = ''error''"

definition receipt_object :: "receipt \<Rightarrow> jsval" where
  "receipt_object r =
     VObj [(''id'', VStr (rid r)),
           (''date'', VStr (date r)),
           (''merchant'', VStr (merchant r)),
           (''total'', VNum (total r)),
           (''category'', VStr (category r)),
           (''paymentSource'', VStr (paymentSource r)),
           (''status'', VStr (status_text (status r))),
           (''imageUrl'', case imageUrl r of Some u \<Rightarrow> VStr u | None \<Rightarrow> VUndefined)]"

text \<open>
  The second effect of \<open>App\<close>, run after every change of \<open>receipts\<close>:
  \<open>localStorage.setItem('scansheet_data', JSON.stringify(receipts))\<close>.
\<close>

definition persist :: "app \<Rightarrow> app" where
  "persist s =
     s\<lparr>storage :=
         Some (case JSON_stringify (VArr (map receipt_object (receipts s))) of
                 Some t \<Rightarrow> t
               | None \<Rightarrow> ''undefined'')\<rparr>"

text \<open>
  \<open>setReceipts(JSON.parse(saved))\<close> stores whatever was parsed, unchecked. The state of
  the model is typed, so the parsed value is read back as receipts: an array of objects
  with exactly the properties \<open>receipt_object\<close> writes, in that order. Any other value
  is outside the typed state.
\<close>

definition status_of_text :: "string \<Rightarrow> status option" where
  "status_of_text t =
     (if t = ''pending'' then Some Pending
      else if t = ''synced'' then Some Synced
      else if t = ''error'' then Some Error
      else None)"

definition str_field :: "(string \<times> jsval) list \<Rightarrow> string \<Rightarrow> string option" where
  "str_field fs k = (case map_of fs k of Some (VStr t) \<Rightarrow> Some t | _ \<Rightarrow> None)"

definition num_field :: "(string \<times> jsval) list \<Rightarrow> string \<Rightarrow> jsnum option" where
  "num_field fs k = (case map_of fs k of Some (VNum n) \<Rightarrow> Some n | _ \<Rightarrow> None)"

definition receipt_keys :: "string list" where
  "receipt_keys = [''id'', ''date'', ''merchant'', ''total'', ''category'', ''paymentSource'', ''status'']"

definition as_receipt :: "jsval \<Rightarrow> receipt option" where
  "as_receipt v =
     (case v of
        VObj fs \<Rightarrow>
          if map fst fs = receipt_keys
             \<or> (map fst fs = receipt_keys @ [''imageUrl''] \<and> str_field fs ''imageUrl'' \<noteq> None)
          then
            Option.bind (str_field fs ''id'') (\<lambda>i.
            Option.bind (str_field fs ''date'') (\<lambda>d.
            Option.bind (str_field fs ''merchant'') (\<lambda>m.
            Option.bind (num_field fs ''total'') (\<lambda>t.
            Option.bind (str_field fs ''category'') (\<lambda>c.
            Option.bind (str_field fs ''paymentSource'') (\<lambda>p.
            Option.bind (Option.bind (str_field fs ''status'') status_of_text) (\<lambda>st.
              Some \<lparr> rid = i, date = d, merchant = m, total = t, paymentSource = p,
                     category = c, status = st, imageUrl = str_field fs ''imageUrl'' \<rparr>)))))))
          else None
      | _ \<Rightarrow> None)"

definition as_receipts :: "jsval \<Rightarrow> receipt list option" where
  "as_receipts v = (case v of VArr xs \<Rightarrow> those (map as_receipt xs) | _ \<Rightarrow> None)"

text \<open>
  Starting the application: the initial render, then the first effect (the load) and the
  second (the write-back). An exception thrown by an effect is caught by nothing: the
  application is gone (\<open>Crashed\<close>).
\<close>

datatype mounted = Running app | Crashed exn | Untyped jsval

definition initial :: "string option \<Rightarrow> app" where
  "initial slot =
     \<lparr> activeView = History, receipts = [], isScanning = False, isProcessing = False,
       currentEdit = None, storage = slot, alerts = [], timers = 0 \<rparr>"

definition mount :: "string option \<Rightarrow> mounted" where
  "mount slot =
     (case slot of
        None \<Rightarrow> Running (persist (initial slot))
      | Some saved \<Rightarrow>
          if saved = [] then Running (persist (initial slot))
          else
            (case JSON_parse saved of
               Parsed v r \<Rightarrow>
                 (case as_receipts v of
                    Some rs \<Rightarrow> Running (persist ((initial slot)\<lparr>receipts := rs\<rparr>))
                  | None \<Rightarrow> Untyped v)
             | Malformed \<Rightarrow> Crashed SyntaxError
             | Outside \<Rightarrow> Crashed Unmodelled
             | NoFuel \<Rightarrow> Crashed Unmodelled))"

text \<open>\<open>saveReceipt\<close>, the form's \<open>onSave\<close>.\<close>

definition saveReceipt :: "receipt \<Rightarrow> app \<Rightarrow> app" where
  "saveReceipt data s =
     persist (s\<lparr>receipts := data # receipts s, currentEdit := None, activeView := History\<rparr>)"

text \<open>
  \<open>simulateSync\<close>: the click handler, and the callback it schedules for two seconds
  later. \<open>run_timer\<close> lets one scheduled callback run.
\<close>

definition simulateSync :: "app \<Rightarrow> app" where
  "simulateSync s =
     (if length (receipts s) = 0 then s
      else s\<lparr>isProcessing := True, timers := timers s + 1\<rparr>)"

definition simulateSync_callback :: "app \<Rightarrow> app" where
  "simulateSync_callback s =
     persist (s\<lparr>receipts := map (\<lambda>r. r\<lparr>status := Synced\<rparr>) (receipts s),
               isProcessing := False,
               alerts := alerts s @ [''Successfully synced with Google Sheets!'']\<rparr>)"

definition run_timer :: "app \<Rightarrow> app" where
  "run_timer s = (if timers s = 0 then s else simulateSync_callback (s\<lparr>timers := timers s - 1\<rparr>))"

text \<open>
  \<open>handleCapture\<close>: what runs before the \<open>await\<close>, and what runs when
  \<open>processReceipt\<close> has settled (the \<open>try\<close> or the \<open>catch\<close> branch, then
  \<open>finally\<close>). \<open>t\<close> is the clock when the call is made and \<open>t'\<close> when it settles.
\<close>

definition handleCapture_begin :: "app \<Rightarrow> app" where
  "handleCapture_begin s = s\<lparr>isScanning := False, isProcessing := True\<rparr>"

definition handleCapture_settled :: "exn + extraction \<Rightarrow> int \<Rightarrow> string \<Rightarrow> app \<Rightarrow> app" where
  "handleCapture_settled outcome t' base64 s =
     (case outcome of
        Inr extractedData \<Rightarrow>
          s\<lparr>currentEdit := Some (extraction.extend extractedData
                                   (editing.fields base64 (show_int t'))),
            activeView := Edit,
            isProcessing := False\<rparr>
      | Inl err \<Rightarrow>
          s\<lparr>alerts := alerts s @ [''Failed to analyze receipt. Please try again.''],
            isProcessing := False\<rparr>)"

definition handleCapture :: "service \<Rightarrow> int \<Rightarrow> int \<Rightarrow> string \<Rightarrow> app \<Rightarrow> app" where
  "handleCapture ai t t' base64 s =
     handleCapture_settled (processReceipt ai t base64) t' base64 (handleCapture_begin s)"

text \<open>The camera button of the tab bar, shown in every view.\<close>

definition openCamera :: "app \<Rightarrow> app" where
  "openCamera s = s\<lparr>isScanning := True\<rparr>"

text \<open>
  The other handlers of \<open>App\<close>: the camera view's Cancel; the Sheet button of the tab
  bar and the form's Cancel, both \<open>setActiveView('history')\<close>; the Setup button; and
  \<open>handleFileUpload\<close> with the \<open>onload\<close> callback of its reader, which refuses a file
  whose type does not start with \<open>image/\<close> and otherwise hands the data URL, unless it
  is empty, to \<open>handleCapture\<close>.
\<close>

definition closeCamera :: "app \<Rightarrow> app" where
  "closeCamera s = s\<lparr>isScanning := False\<rparr>"

definition showHistory :: "app \<Rightarrow> app" where
  "showHistory s = s\<lparr>activeView := History\<rparr>"

definition openSetup :: "app \<Rightarrow> app" where
  "openSetup s = s\<lparr>alerts := alerts s @ [''Setting up Google Sheets OAuth integration...'']\<rparr>"

definition handleFileUpload :: "string \<Rightarrow> string \<Rightarrow> app \<Rightarrow> app" where
  "handleFileUpload file_type base64 s =
     (if take 6 file_type \<noteq> ''image/'' then s\<lparr>alerts := alerts s @ [''Please upload an image file.'']\<rparr>
      else if base64 = [] then s
      else handleCapture_begin s)"

text \<open>
  The form receives \<open>currentEdit\<close> as its \<open>initialData\<close>, typed
  \<open>Partial<ReceiptData>\<close>: the typed reading of the object, when its properties have the
  declared types.
\<close>

definition as_draft :: "editing \<Rightarrow> draft option" where
  "as_draft e =
     (case (x_date e, x_merchant e, x_total e, x_category e, x_paymentSource e) of
        (VStr d, VStr m, VNum t, VStr c, VStr p) \<Rightarrow>
          Some \<lparr> d_id = Some (e_id e), d_date = Some d, d_merchant = Some m, d_total = Some t,
                 d_paymentSource = Some p, d_category = Some c, d_status = None,
                 d_imageUrl = Some (e_imageUrl e) \<rparr>
      | _ \<Rightarrow> None)"

section \<open>Notions used in the statements\<close>

text \<open>
  A service that resolves to a response with the given \<open>text\<close>, and one that rejects.
\<close>

definition respond :: "string option \<Rightarrow> service" where
  "respond resp req = Inr resp"

definition reject :: "exn \<Rightarrow> service" where
  "reject e req = Inl e"

text \<open>
  The property \<open>k\<close> of a response object when it is present and truthy, and the default
  \<open>d\<close> otherwise.
\<close>

definition extracted_or :: "(string \<times> jsval) list \<Rightarrow> string \<Rightarrow> jsval \<Rightarrow> jsval" where
  "extracted_or fs k d = (case map_of fs k of Some v \<Rightarrow> if truthy v then v else d | None \<Rightarrow> d)"

text \<open>
  The store's \<open>markAllSynced\<close>: a click on Sync, then the callback that the click
  scheduled, if it scheduled one.
\<close>

definition markAllSynced :: "app \<Rightarrow> app" where
  "markAllSynced s = run_timer (simulateSync s)"

text \<open>A finite number that is not negative.\<close>

fun nonneg_finite :: "jsnum \<Rightarrow> bool" where
  "nonneg_finite Zero = True"
| "nonneg_finite (Decimal neg ds n) = (\<not> neg)"
| "nonneg_finite other = False"

text \<open>Sample inputs: an image as the camera delivers it, and a draft without any field.\<close>

definition sample_image :: string where
  "sample_image = ''data:image/jpeg;base64,/9j/4AAQ''"

definition blank_draft :: draft where
  "blank_draft =
     \<lparr> d_id = None, d_date = None, d_merchant = None, d_total = None, d_paymentSource = None,
       d_category = None, d_status = None, d_imageUrl = None \<rparr>"

text \<open>
  What can happen to the application, one event at a time: the user's taps, the settling
  of a call that \<open>processReceipt\<close> made (with the service that answered and the clock
  readings when the call was made and when it settled), and the timer of a sync. An
  event whose control is not rendered in the state does nothing; the guards are those of
  the JSX (\<open>isScanning &&\<close>, \<open>activeView === 'history' &&\<close>,
  \<open>activeView === 'edit' && currentEdit &&\<close>). A settling is not tied to the call it
  settles, since the state keeps no list of the calls in flight. \<open>Done\<close> is the form's
  Done button: \<open>handleSubmit\<close> hands its record to \<open>saveReceipt\<close>. The form's props
  and state are not part of \<open>app\<close>, so the event names them: the clock, the draft the
  form holds as \<open>initialData\<close> and the state the user has brought the form to, all
  three left free.
\<close>

datatype event =
    TapCamera
  | CancelCamera
  | Shutter string
  | Upload string string
  | Settled service int int string
  | TapSheet
  | CancelForm
  | TapSetup
  | TapSync
  | Timer
  | Done int draft formData

fun step :: "app \<Rightarrow> event \<Rightarrow> app" where
  "step s TapCamera = openCamera s"
| "step s CancelCamera = (if isScanning s then closeCamera s else s)"
| "step s (Shutter base64) = (if isScanning s then handleCapture_begin s else s)"
| "step s (Upload file_type base64) =
     (if activeView s = History then handleFileUpload file_type base64 s else s)"
| "step s (Settled ai t t' base64) = handleCapture_settled (processReceipt ai t base64) t' base64 s"
| "step s TapSheet = showHistory s"
| "step s CancelForm = (if activeView s = Edit \<and> currentEdit s \<noteq> None then showHistory s else s)"
| "step s TapSetup = openSetup s"
| "step s TapSync = (if activeView s = History then simulateSync s else s)"
| "step s Timer = run_timer s"
| "step s (Done t d fd) =
     (if activeView s = Edit \<and> currentEdit s \<noteq> None then saveReceipt (handleSubmit t d fd) s else s)"

definition run :: "app \<Rightarrow> event list \<Rightarrow> app" where
  "run s es = foldl step s es"

text \<open>
  A service that rejects every call and gives back, as the message of the rejection, the
  image data it was sent.
\<close>

definition reports :: service where
  "reports req = Inl (ServiceError (inlineData_data req))"

text \<open>
  A response that names a negative total and a category outside the enumeration, and the
  draft that a capture at 2026-11-02 01:35:01 UTC makes of it.
\<close>

definition odd_response :: string where
  \<open>odd_response = ''{"date":"2026-10-31","merchant":"Cafe Luna","total":-5,"category":"Groceries"}''\<close>

definition odd_draft :: draft where
  "odd_draft =
     \<lparr> d_id = Some ''1793583301000'', d_date = Some ''2026-10-31'', d_merchant = Some ''Cafe Luna'',
       d_total = Some (Decimal True [5] 1), d_paymentSource = Some ''Unknown'',
       d_category = Some ''Groceries'', d_status = None, d_imageUrl = Some sample_image \<rparr>"

text \<open>
  A response whose total is beyond the doubles, and the draft that the same capture makes
  of it.
\<close>

definition huge_response :: string where
  \<open>huge_response = ''{"date":"2026-10-31","merchant":"Lotto","total":1e400,"category":"Other"}''\<close>

definition huge_draft :: draft where
  "huge_draft =
     \<lparr> d_id = Some ''1793583301000'', d_date = Some ''2026-10-31'', d_merchant = Some ''Lotto'',
       d_total = Some (Infinite False), d_paymentSource = Some ''Unknown'',
       d_category = Some ''Other'', d_status = None, d_imageUrl = Some sample_image \<rparr>"

text \<open>
  A finite double that is not zero is \<open>Decimal\<close> with its digits in normal form (no
  leading and no trailing zero, each digit below ten) and a magnitude inside the range
  of the doubles. \<open>number_value\<close> builds no other \<open>Decimal\<close>.
\<close>

definition canonical :: "nat list \<Rightarrow> bool" where
  "canonical ds = (ds \<noteq> [] \<and> hd ds \<noteq> 0 \<and> last ds \<noteq> 0 \<and> list_all (\<lambda>d. d < 10) ds)"

fun finite_number :: "jsnum \<Rightarrow> bool" where
  "finite_number Zero = True"
| "finite_number (Decimal neg ds n) = (canonical ds \<and> \<not> overflows ds n \<and> \<not> underflows ds n)"
| "finite_number other = False"

text \<open>
  The values that \<open>JSON.stringify\<close> writes without loss: no \<open>undefined\<close>, finite numbers,
  and objects that name each property once.
\<close>

fun storable :: "jsval \<Rightarrow> bool" where
  "storable VUndefined = False"
| "storable VNull = True"
| "storable (VBool b) = True"
| "storable (VNum n) = finite_number n"
| "storable (VStr s) = True"
| "storable (VArr xs) = list_all storable xs"
| "storable (VObj fs) = (distinct (map fst fs) \<and> list_all (\<lambda>p. storable (snd p)) fs)"

text \<open>An object without its \<open>undefined\<close> properties, which \<open>JSON.stringify\<close> leaves out.\<close>

fun present :: "jsval \<Rightarrow> jsval" where
  "present (VObj fs) = VObj (filter (\<lambda>p. snd p \<noteq> VUndefined) fs)"
| "present v = v"

text \<open>
  What may stand after a value inside JSON text, and the characters a printed value
  begins with.
\<close>

definition follows :: "string \<Rightarrow> bool" where
  "follows rest = (rest = [] \<or> hd rest \<in> {CHR '','', CHR '']'', CHR ''}''})"

definition starts_value :: "char \<Rightarrow> bool" where
  "starts_value c = (is_digit c \<or> c \<in> {CHR ''-'', CHR 0x22, CHR ''['', CHR ''{'', CHR ''t'', CHR ''f'', CHR ''n''})"

text \<open>
  Fuel \<open>f\<close> is enough for every text shorter than half of it, and a parse that succeeds
  consumes at least one character.
\<close>

definition fuel_ok :: "nat \<Rightarrow> bool" where
  "fuel_ok f \<longleftrightarrow>
     (\<forall>cs. (2 * length cs < f \<longrightarrow> parse_value f cs \<noteq> NoFuel)
        \<and> (\<forall>v r. parse_value f cs = Parsed v r \<longrightarrow> length r < length cs))
   \<and> (\<forall>cs. (2 * length cs + 1 < f \<longrightarrow> parse_elements f cs \<noteq> NoFuel)
        \<and> (\<forall>v r. parse_elements f cs = Parsed v r \<longrightarrow> length r < length cs))
   \<and> (\<forall>acc cs. (2 * length cs + 1 < f \<longrightarrow> parse_members f acc cs \<noteq> NoFuel)
        \<and> (\<forall>v r. parse_members f acc cs = Parsed v r \<longrightarrow> length r < length cs))"

text \<open>
  Three records as the form hands them over: two with ordinary totals, and one whose
  total text \<open>1e400\<close> is beyond the doubles.
\<close>

definition lunch :: receipt where
  "lunch = handleSubmit 1793583309000 blank_draft
             (foldl onChange (ReceiptEdit 1793583301000 blank_draft)
                [ChangeMerchant ''Cafe Luna'', ChangeTotal ''12.50''])"

definition taxi :: receipt where
  "taxi = handleSubmit 1793583399000 blank_draft
            (foldl onChange (ReceiptEdit 1793583391000 blank_draft)
               [ChangeMerchant ''City Cab'', ChangeTotal ''7'', ChangeCategory TRANSPORT])"

definition jackpot :: receipt where
  "jackpot = handleSubmit 1793583399000 blank_draft
               (foldl onChange (ReceiptEdit 1793583391000 blank_draft)
                  [ChangeMerchant ''Lotto'', ChangeTotal ''1e400''])"

text \<open>
  A value without a \<open>NaN\<close> in it, and what the parser guarantees at a given fuel: JSON text
  has no way to write \<open>NaN\<close>.
\<close>

fun no_NaN :: "jsval \<Rightarrow> bool" where
  "no_NaN (VNum n) = (n \<noteq> NaN)"
| "no_NaN (VArr xs) = list_all no_NaN xs"
| "no_NaN (VObj fs) = list_all (\<lambda>p. no_NaN (snd p)) fs"
| "no_NaN v = True"

definition parses_no_NaN :: "nat \<Rightarrow> bool" where
  "parses_no_NaN f \<longleftrightarrow>
     (\<forall>cs v r. parse_value f cs = Parsed v r \<longrightarrow> no_NaN v)
   \<and> (\<forall>cs vs r. parse_elements f cs = Parsed vs r \<longrightarrow> list_all no_NaN vs)
   \<and> (\<forall>acc cs kvs r. list_all (\<lambda>p. no_NaN (snd p)) acc \<longrightarrow> parse_members f acc cs = Parsed kvs r
        \<longrightarrow> list_all (\<lambda>p. no_NaN (snd p)) kvs)"

section \<open>Splitting and the date\<close>

lemma js_split_no_sep: "sep \<notin> set xs \<Longrightarrow> js_split sep xs = [xs]"
  by (induction xs) auto

lemma js_split_append: "sep \<notin> set xs \<Longrightarrow> js_split sep (xs @ sep # ys) = xs # js_split sep ys"
  by (induction xs) auto

lemma digits_of_lt10: "d \<in> set (digits_of i) \<Longrightarrow> d < 10"
proof (induction i rule: digits_of.induct)
  case (1 i)
  show ?case
  proof (cases "i < 10")
    case True
    with "1.prems" show ?thesis by (simp add: digits_of.simps [of i])
  next
    case False
    with "1.prems" "1.IH" show ?thesis
      by (auto simp: digits_of.simps [of i])
  qed
qed

lemma is_digit_digit_char: "d < 10 \<Longrightarrow> is_digit (digit_char d)"
  by (simp add: is_digit_def digit_char_def)

lemma is_digit_show_nat: "c \<in> set (show_nat n) \<Longrightarrow> is_digit c"
  by (auto simp: show_nat_def show_int_def dest!: digits_of_lt10 intro: is_digit_digit_char)

lemma is_digit_pad: "c \<in> set (pad w n) \<Longrightarrow> is_digit c"
  by (auto simp: pad_def dest: is_digit_show_nat) (simp add: is_digit_def)

lemma T_notin_utc_date: "CHR ''T'' \<notin> set (utc_date t)"
proof -
  have "\<not> is_digit (CHR ''T'')" by (simp add: is_digit_def)
  then show ?thesis
    by (auto simp: utc_date_def iso_year_def split: prod.splits dest!: is_digit_pad)
qed

text \<open>The default date is the UTC calendar day of the clock reading.\<close>

lemma today_utc_date: "today now = utc_date now"
  by (simp add: today_def toISOString_def js_split_append [OF T_notin_utc_date])

section \<open>The extraction client: the image payload\<close>

lemma base64_no_comma: "list_all is_base64_char p \<Longrightarrow> CHR '','' \<notin> set p"
  by (auto simp: list_all_iff is_base64_char_def)

lemma request_only_data:
  "imageData a = imageData b \<Longrightarrow> generateContent_request a = generateContent_request b"
  by (simp add: generateContent_request_def)

lemma processReceipt_reports:
  "processReceipt reports t img = Inl (ServiceError (imageData img))"
  by (simp add: processReceipt_def reports_def generateContent_request_def)

text \<open>
  Claim C8, as the code has it. The metadata prefix of an image given as a data URL is
  what stands before its first comma. For an image given as such a prefix, a comma and a
  base64 payload that is not empty, the one request that \<open>processReceipt\<close> makes carries
  exactly the payload, and the call goes as it does on the bare payload; for an image
  given as the bare base64 payload, the request carries it unchanged.
\<close>

theorem processReceipt_sends_payload:
  assumes "list_all is_base64_char payload"
  shows "(payload \<noteq> [] \<and> CHR '','' \<notin> set prefix \<longrightarrow>
            inlineData_data (generateContent_request (prefix @ CHR '','' # payload)) = payload
            \<and> processReceipt reports t (prefix @ CHR '','' # payload) = Inl (ServiceError payload)
            \<and> processReceipt ai t (prefix @ CHR '','' # payload) = processReceipt ai t payload)
         \<and> inlineData_data (generateContent_request payload) = payload
         \<and> processReceipt reports t payload = Inl (ServiceError payload)"
proof -
  from assms have nc: "CHR '','' \<notin> set payload" by (rule base64_no_comma)
  have raw: "imageData payload = payload"
    by (simp add: imageData_def js_split_no_sep [OF nc] js_index_def)
  have pre: "imageData (prefix @ CHR '','' # payload) = payload"
    if "payload \<noteq> []" "CHR '','' \<notin> set prefix"
    using that by (simp add: imageData_def js_split_append js_split_no_sep [OF nc] js_index_def)
  have same: "processReceipt ai t (prefix @ CHR '','' # payload) = processReceipt ai t payload"
    if "payload \<noteq> []" "CHR '','' \<notin> set prefix"
    using request_only_data [of "prefix @ CHR '','' # payload" payload] pre [OF that] raw
    by (simp add: processReceipt_def)
  show ?thesis
    using raw pre same by (simp add: processReceipt_reports generateContent_request_def)
qed

theorem processReceipt_sends_payload_witness:
  "inlineData_data (generateContent_request ''data:image/jpeg;base64,/9j/4AAQ'') = ''/9j/4AAQ''
   \<and> processReceipt reports 1793583300000 ''data:image/jpeg;base64,/9j/4AAQ''
       = Inl (ServiceError ''/9j/4AAQ'')
   \<and> processReceipt reports 1793583300000 ''/9j/4AAQ'' = Inl (ServiceError ''/9j/4AAQ'')"
proof -
  have b: "list_all is_base64_char ''/9j/4AAQ''" by (simp add: is_base64_char_def)
  show ?thesis
    using processReceipt_sends_payload [OF b, of "''data:image/jpeg;base64''" 1793583300000] by simp
qed

text \<open>
  Claim C8 as stated fails when nothing follows the prefix. \<open>canvas.toDataURL\<close> gives
  \<open>data:,\<close> for a canvas without area, which is what the shutter button captures while
  the video has no frame yet; \<open>split(',')[1]\<close> is then the empty string, \<open>||\<close> falls back
  to the whole input, and the request carries \<open>data:,\<close> with its prefix.
\<close>

theorem empty_payload_counterexample:
  "inlineData_data (generateContent_request ''data:,'') = ''data:,''
   \<and> processReceipt reports 1793583300000 ''data:,'' = Inl (ServiceError ''data:,'')"
  by code_simp

section \<open>The store: marking all receipts synced\<close>

text \<open>
  Claim C5. With no earlier sync pending, \<open>markAllSynced\<close> leaves an empty store as it is;
  on any store it sets the status of every receipt to synced, keeps their number and
  order, and changes no other field of any receipt.
\<close>

theorem markAllSynced_frame:
  assumes "timers s = 0"
  shows "(receipts s = [] \<longrightarrow> markAllSynced s = s)
         \<and> receipts (markAllSynced s) = map (\<lambda>r. r\<lparr>status := Synced\<rparr>) (receipts s)
         \<and> length (receipts (markAllSynced s)) = length (receipts s)
         \<and> (\<forall>i < length (receipts s).
               status (receipts (markAllSynced s) ! i) = Synced
               \<and> (receipts (markAllSynced s) ! i)\<lparr>status := status (receipts s ! i)\<rparr>
                   = receipts s ! i)"
  using assms
  by (auto simp: markAllSynced_def simulateSync_def simulateSync_callback_def persist_def
        run_timer_def)

theorem markAllSynced_frame_witness:
  "markAllSynced (initial None) = initial None
   \<and> receipts (markAllSynced
        ((initial None)\<lparr>receipts :=
            [\<lparr>rid = ''2'', date = ''2026-11-02'', merchant = ''Cafe Luna'',
              total = Decimal False [1, 2, 5] 2, paymentSource = ''Cash'',
              category = ''Food & Dining'', status = Pending, imageUrl = None\<rparr>,
             \<lparr>rid = ''1'', date = ''2026-11-01'', merchant = ''Metro'',
              total = Decimal False [3] 1, paymentSource = ''Visa 1234'',
              category = ''Transport'', status = Error, imageUrl = None\<rparr>]\<rparr>))
      = [\<lparr>rid = ''2'', date = ''2026-11-02'', merchant = ''Cafe Luna'',
           total = Decimal False [1, 2, 5] 2, paymentSource = ''Cash'',
           category = ''Food & Dining'', status = Synced, imageUrl = None\<rparr>,
         \<lparr>rid = ''1'', date = ''2026-11-01'', merchant = ''Metro'',
           total = Decimal False [3] 1, paymentSource = ''Visa 1234'',
           category = ''Transport'', status = Synced, imageUrl = None\<rparr>]"
proof -
  have t: "timers (initial None) = 0" by (simp add: initial_def)
  show ?thesis
    using markAllSynced_frame [of "initial None"]
          markAllSynced_frame [of "(initial None)\<lparr>receipts :=
            [\<lparr>rid = ''2'', date = ''2026-11-02'', merchant = ''Cafe Luna'',
              total = Decimal False [1, 2, 5] 2, paymentSource = ''Cash'',
              category = ''Food & Dining'', status = Pending, imageUrl = None\<rparr>,
             \<lparr>rid = ''1'', date = ''2026-11-01'', merchant = ''Metro'',
              total = Decimal False [3] 1, paymentSource = ''Visa 1234'',
              category = ''Transport'', status = Error, imageUrl = None\<rparr>]\<rparr>"]
    by (simp add: initial_def)
qed

section \<open>The extraction client: defaults\<close>

text \<open>
  What \<open>processReceipt\<close> resolves to when the call resolves and the response text parses
  to an object.
\<close>

lemma processReceipt_object:
  assumes "ai (generateContent_request img) = Inr resp"
      and "JSON_parse (response_text resp) = Parsed (VObj fs) r"
  shows "processReceipt ai now img =
           Inr \<lparr> x_date = extracted_or fs ''date'' (VStr (utc_date now)),
                 x_merchant = extracted_or fs ''merchant'' (VStr ''Unknown Merchant''),
                 x_total = extracted_or fs ''total'' (VNum Zero),
                 x_category = extracted_or fs ''category'' (VStr ''Other''),
                 x_paymentSource = extracted_or fs ''paymentSource'' (VStr ''Unknown'') \<rparr>"
  using assms
  by (simp add: processReceipt_def readProp_def extracted_or_def js_or_def today_utc_date
        split: option.splits)

lemma extracted_or_defined: "d \<noteq> VUndefined \<Longrightarrow> extracted_or fs k d \<noteq> VUndefined"
  by (auto simp: extracted_or_def split: option.splits)

text \<open>
  Claim C1, as the code has it. When the response is an object, every field of the result
  is the extracted value if that is present and truthy, and otherwise its default: the
  UTC calendar day of the clock for the date, \<open>Unknown Merchant\<close>, the number 0,
  \<open>Other\<close> and \<open>Unknown\<close>. No field of the result is \<open>undefined\<close>.
\<close>

theorem processReceipt_defaults:
  assumes "ai (generateContent_request img) = Inr resp"
      and "JSON_parse (response_text resp) = Parsed (VObj fs) r"
  shows "\<exists>x. processReceipt ai now img = Inr x
           \<and> x_date x = extracted_or fs ''date'' (VStr (utc_date now))
           \<and> x_merchant x = extracted_or fs ''merchant'' (VStr ''Unknown Merchant'')
           \<and> x_total x = extracted_or fs ''total'' (VNum Zero)
           \<and> x_category x = extracted_or fs ''category'' (VStr ''Other'')
           \<and> x_paymentSource x = extracted_or fs ''paymentSource'' (VStr ''Unknown'')
           \<and> x_date x \<noteq> VUndefined \<and> x_merchant x \<noteq> VUndefined \<and> x_total x \<noteq> VUndefined
           \<and> x_category x \<noteq> VUndefined \<and> x_paymentSource x \<noteq> VUndefined"
  by (simp add: processReceipt_object [where ai = ai and img = img, OF assms] extracted_or_defined)

theorem processReceipt_defaults_witness:
  \<open>\<exists>x. processReceipt (respond (Some ''{"merchant": "Cafe Luna", "total": 12.5}'')) 1793583300000
          ''data:image/jpeg;base64,/9j/4AAQ'' = Inr x
       \<and> x_date x = VStr ''2026-11-02''
       \<and> x_merchant x = VStr ''Cafe Luna''
       \<and> x_total x = VNum (Decimal False [1, 2, 5] 2)
       \<and> x_category x = VStr ''Other''
       \<and> x_paymentSource x = VStr ''Unknown''\<close>
proof -
  have a: \<open>respond (Some ''{"merchant": "Cafe Luna", "total": 12.5}'')
             (generateContent_request ''data:image/jpeg;base64,/9j/4AAQ'')
           = Inr (Some ''{"merchant": "Cafe Luna", "total": 12.5}'')\<close>
    by (simp add: respond_def)
  have p: \<open>JSON_parse (response_text (Some ''{"merchant": "Cafe Luna", "total": 12.5}''))
           = Parsed (VObj [(''merchant'', VStr ''Cafe Luna''),
                           (''total'', VNum (Decimal False [1, 2, 5] 2))]) []\<close>
    by code_simp
  have u: "utc_date 1793583300000 = ''2026-11-02''" by code_simp
  show ?thesis
    using processReceipt_defaults
            [where ai = \<open>respond (Some ''{"merchant": "Cafe Luna", "total": 12.5}'')\<close>
               and img = "''data:image/jpeg;base64,/9j/4AAQ''" and now = 1793583300000, OF a p]
    by (auto simp: extracted_or_def u)
qed

text \<open>
  Claim C1 as stated fails on the date. At 2026-11-02 01:35 UTC, in a zone five hours
  behind UTC, the local calendar day is 2026-11-01; the date that \<open>processReceipt\<close> fills
  in for a response without one is 2026-11-02.
\<close>

theorem local_day_counterexample:
  \<open>processReceipt (respond (Some ''{"merchant": "Cafe Luna", "total": 12.5}'')) 1793583300000
      ''data:image/jpeg;base64,/9j/4AAQ''
    = Inr \<lparr> x_date = VStr ''2026-11-02'', x_merchant = VStr ''Cafe Luna'',
            x_total = VNum (Decimal False [1, 2, 5] 2), x_category = VStr ''Other'',
            x_paymentSource = VStr ''Unknown'' \<rparr>
   \<and> spec_local_today 1793583300000 300 = ''2026-11-01''\<close>
  by code_simp



section \<open>Extraction failures\<close>

lemma processReceipt_no_object:
  assumes "ai (generateContent_request img) = Inr resp"
      and "JSON_parse (response_text resp) = Parsed v r"
      and "v \<noteq> VNull" "v \<noteq> VUndefined" "\<forall>fs. v \<noteq> VObj fs"
  shows "processReceipt ai t img =
           Inr \<lparr> x_date = VStr (today t), x_merchant = VStr ''Unknown Merchant'',
                 x_total = VNum Zero, x_category = VStr ''Other'',
                 x_paymentSource = VStr ''Unknown'' \<rparr>"
  using assms by (cases v) (simp_all add: processReceipt_def readProp_def js_or_def)

text \<open>
  Claim C7, as the code has it. A rejection of the remote call, a response text that does
  not parse and a response that is \<open>null\<close> each make \<open>processReceipt\<close> reject, with that
  error. A response that parses to anything else resolves, whether or not it has the
  shape of the schema: an object gives its truthy properties and the defaults for the
  others, and a number, string, boolean or array gives the five defaults. When
  \<open>processReceipt\<close> rejects, \<open>handleCapture\<close> shows one notice, leaves the receipts, the
  storage and the draft as they were, closes the camera and the processing overlay, and
  leaves the active view as it was.
\<close>

theorem extraction_failure_handling:
  "(ai (generateContent_request img) = Inl e \<longrightarrow> processReceipt ai t img = Inl e)
   \<and> (ai (generateContent_request img) = Inr resp \<and> JSON_parse (response_text resp) = Malformed
        \<longrightarrow> processReceipt ai t img = Inl SyntaxError)
   \<and> (ai (generateContent_request img) = Inr resp \<and> JSON_parse (response_text resp) = Parsed VNull r
        \<longrightarrow> processReceipt ai t img = Inl TypeError)
   \<and> (ai (generateContent_request img) = Inr resp \<and> JSON_parse (response_text resp) = Parsed (VObj fs) r
        \<longrightarrow> processReceipt ai t img =
             Inr \<lparr> x_date = extracted_or fs ''date'' (VStr (utc_date t)),
                   x_merchant = extracted_or fs ''merchant'' (VStr ''Unknown Merchant''),
                   x_total = extracted_or fs ''total'' (VNum Zero),
                   x_category = extracted_or fs ''category'' (VStr ''Other''),
                   x_paymentSource = extracted_or fs ''paymentSource'' (VStr ''Unknown'') \<rparr>)
   \<and> (ai (generateContent_request img) = Inr resp \<and> JSON_parse (response_text resp) = Parsed v r
        \<and> v \<noteq> VNull \<and> v \<noteq> VUndefined \<and> (\<forall>fs. v \<noteq> VObj fs)
        \<longrightarrow> processReceipt ai t img =
             Inr \<lparr> x_date = VStr (utc_date t), x_merchant = VStr ''Unknown Merchant'',
                   x_total = VNum Zero, x_category = VStr ''Other'',
                   x_paymentSource = VStr ''Unknown'' \<rparr>)
   \<and> (processReceipt ai t img = Inl e \<longrightarrow>
        alerts (handleCapture ai t t' img s)
          = alerts s @ [''Failed to analyze receipt. Please try again.'']
        \<and> receipts (handleCapture ai t t' img s) = receipts s
        \<and> storage (handleCapture ai t t' img s) = storage s
        \<and> currentEdit (handleCapture ai t t' img s) = currentEdit s
        \<and> activeView (handleCapture ai t t' img s) = activeView s
        \<and> \<not> isScanning (handleCapture ai t t' img s)
        \<and> \<not> isProcessing (handleCapture ai t t' img s))"
proof -
  have a: "ai (generateContent_request img) = Inl e \<longrightarrow> processReceipt ai t img = Inl e"
    by (simp add: processReceipt_def)
  have b: "ai (generateContent_request img) = Inr resp \<and> JSON_parse (response_text resp) = Malformed
        \<longrightarrow> processReceipt ai t img = Inl SyntaxError"
    by (simp add: processReceipt_def)
  have c: "ai (generateContent_request img) = Inr resp \<and> JSON_parse (response_text resp) = Parsed VNull r
        \<longrightarrow> processReceipt ai t img = Inl TypeError"
    by (simp add: processReceipt_def)
  have d: "ai (generateContent_request img) = Inr resp \<and> JSON_parse (response_text resp) = Parsed (VObj fs) r
        \<longrightarrow> processReceipt ai t img =
             Inr \<lparr> x_date = extracted_or fs ''date'' (VStr (utc_date t)),
                   x_merchant = extracted_or fs ''merchant'' (VStr ''Unknown Merchant''),
                   x_total = extracted_or fs ''total'' (VNum Zero),
                   x_category = extracted_or fs ''category'' (VStr ''Other''),
                   x_paymentSource = extracted_or fs ''paymentSource'' (VStr ''Unknown'') \<rparr>"
    using processReceipt_object [of ai img resp fs r t] by blast
  have f: "ai (generateContent_request img) = Inr resp \<and> JSON_parse (response_text resp) = Parsed v r
        \<and> v \<noteq> VNull \<and> v \<noteq> VUndefined \<and> (\<forall>fs. v \<noteq> VObj fs)
        \<longrightarrow> processReceipt ai t img =
             Inr \<lparr> x_date = VStr (utc_date t), x_merchant = VStr ''Unknown Merchant'',
                   x_total = VNum Zero, x_category = VStr ''Other'',
                   x_paymentSource = VStr ''Unknown'' \<rparr>"
    using processReceipt_no_object [of ai img resp v r t] by (simp add: today_utc_date)
  have g: "processReceipt ai t img = Inl e \<longrightarrow>
        alerts (handleCapture ai t t' img s)
          = alerts s @ [''Failed to analyze receipt. Please try again.'']
        \<and> receipts (handleCapture ai t t' img s) = receipts s
        \<and> storage (handleCapture ai t t' img s) = storage s
        \<and> currentEdit (handleCapture ai t t' img s) = currentEdit s
        \<and> activeView (handleCapture ai t t' img s) = activeView s
        \<and> \<not> isScanning (handleCapture ai t t' img s)
        \<and> \<not> isProcessing (handleCapture ai t t' img s)"
    by (simp add: handleCapture_def handleCapture_settled_def handleCapture_begin_def)
  from a b c d f g show ?thesis by (intro conjI)
qed

theorem extraction_failure_handling_witness:
  \<open>processReceipt (reject (ServiceError ''503'')) 1793583300000 sample_image = Inl (ServiceError ''503'')
   \<and> processReceipt (respond (Some ''{"merchant": '')) 1793583300000 sample_image = Inl SyntaxError
   \<and> processReceipt (respond (Some ''null'')) 1793583300000 sample_image = Inl TypeError
   \<and> processReceipt (respond (Some ''{"total": "abc"}'')) 1793583300000 sample_image
       = Inr \<lparr> x_date = VStr ''2026-11-02'', x_merchant = VStr ''Unknown Merchant'',
               x_total = VStr ''abc'', x_category = VStr ''Other'',
               x_paymentSource = VStr ''Unknown'' \<rparr>
   \<and> processReceipt (respond (Some ''[]'')) 1793583300000 sample_image
       = Inr \<lparr> x_date = VStr ''2026-11-02'', x_merchant = VStr ''Unknown Merchant'',
               x_total = VNum Zero, x_category = VStr ''Other'',
               x_paymentSource = VStr ''Unknown'' \<rparr>
   \<and> alerts (handleCapture (reject (ServiceError ''503'')) 1793583300000 1793583301000 sample_image
              (openCamera (initial None)))
       = [''Failed to analyze receipt. Please try again.'']
   \<and> receipts (handleCapture (reject (ServiceError ''503'')) 1793583300000 1793583301000 sample_image
              (openCamera (initial None))) = []
   \<and> activeView (handleCapture (reject (ServiceError ''503'')) 1793583300000 1793583301000 sample_image
              (openCamera (initial None))) = History\<close>
proof -
  have a: "reject (ServiceError ''503'') (generateContent_request sample_image) = Inl (ServiceError ''503'')"
    by (simp add: reject_def)
  have b: \<open>respond (Some ''{"merchant": '') (generateContent_request sample_image)
             = Inr (Some ''{"merchant": '')
           \<and> JSON_parse (response_text (Some ''{"merchant": '')) = Malformed\<close>
    by code_simp
  have c: \<open>respond (Some ''null'') (generateContent_request sample_image) = Inr (Some ''null'')
           \<and> JSON_parse (response_text (Some ''null'')) = Parsed VNull []\<close>
    by code_simp
  have o: \<open>respond (Some ''{"total": "abc"}'') (generateContent_request sample_image)
             = Inr (Some ''{"total": "abc"}'')
           \<and> JSON_parse (response_text (Some ''{"total": "abc"}''))
               = Parsed (VObj [(''total'', VStr ''abc'')]) []\<close>
    by code_simp
  have ov: "extracted_or [(''total'', VStr ''abc'')] ''date'' (VStr (utc_date 1793583300000)) = VStr ''2026-11-02''
      \<and> extracted_or [(''total'', VStr ''abc'')] ''merchant'' (VStr ''Unknown Merchant'') = VStr ''Unknown Merchant''
      \<and> extracted_or [(''total'', VStr ''abc'')] ''total'' (VNum Zero) = VStr ''abc''
      \<and> extracted_or [(''total'', VStr ''abc'')] ''category'' (VStr ''Other'') = VStr ''Other''
      \<and> extracted_or [(''total'', VStr ''abc'')] ''paymentSource'' (VStr ''Unknown'') = VStr ''Unknown''"
    by code_simp
  have n: \<open>respond (Some ''[]'') (generateContent_request sample_image) = Inr (Some ''[]'')
           \<and> JSON_parse (response_text (Some ''[]'')) = Parsed (VArr []) []\<close>
    by code_simp
  have u: "utc_date 1793583300000 = ''2026-11-02''" by code_simp
  have d: "processReceipt (reject (ServiceError ''503'')) 1793583300000 sample_image = Inl (ServiceError ''503'')"
    using extraction_failure_handling
            [where ai = "reject (ServiceError ''503'')" and img = sample_image and e = "ServiceError ''503''"
               and t = 1793583300000] a
    by simp
  have w1: \<open>processReceipt (respond (Some ''{"merchant": '')) 1793583300000 sample_image = Inl SyntaxError\<close>
    using extraction_failure_handling
        [where ai = \<open>respond (Some ''{"merchant": '')\<close> and img = sample_image
           and resp = \<open>Some ''{"merchant": ''\<close> and t = 1793583300000] b
    by blast
  have w2: \<open>processReceipt (respond (Some ''null'')) 1793583300000 sample_image = Inl TypeError\<close>
    using extraction_failure_handling
        [where ai = \<open>respond (Some ''null'')\<close> and img = sample_image
           and resp = \<open>Some ''null''\<close> and r = "[]" and t = 1793583300000] c
    by blast
  have w3: \<open>processReceipt (respond (Some ''{"total": "abc"}'')) 1793583300000 sample_image
       = Inr \<lparr> x_date = extracted_or [(''total'', VStr ''abc'')] ''date'' (VStr (utc_date 1793583300000)),
               x_merchant = extracted_or [(''total'', VStr ''abc'')] ''merchant'' (VStr ''Unknown Merchant''),
               x_total = extracted_or [(''total'', VStr ''abc'')] ''total'' (VNum Zero),
               x_category = extracted_or [(''total'', VStr ''abc'')] ''category'' (VStr ''Other''),
               x_paymentSource = extracted_or [(''total'', VStr ''abc'')] ''paymentSource'' (VStr ''Unknown'') \<rparr>\<close>
    using extraction_failure_handling
        [where ai = \<open>respond (Some ''{"total": "abc"}'')\<close> and img = sample_image
           and resp = \<open>Some ''{"total": "abc"}''\<close> and r = "[]" and t = 1793583300000
           and fs = "[(''total'', VStr ''abc'')]"] o
    by blast
  have w4: \<open>processReceipt (respond (Some ''[]'')) 1793583300000 sample_image
       = Inr \<lparr> x_date = VStr (utc_date 1793583300000), x_merchant = VStr ''Unknown Merchant'',
               x_total = VNum Zero, x_category = VStr ''Other'',
               x_paymentSource = VStr ''Unknown'' \<rparr>\<close>
    using extraction_failure_handling
        [where ai = \<open>respond (Some ''[]'')\<close> and img = sample_image
           and resp = \<open>Some ''[]''\<close> and r = "[]" and t = 1793583300000 and v = "VArr []"] n
    by blast
  have w5: "alerts (handleCapture (reject (ServiceError ''503'')) 1793583300000 1793583301000 sample_image
              (openCamera (initial None)))
       = alerts (openCamera (initial None)) @ [''Failed to analyze receipt. Please try again.'']
   \<and> receipts (handleCapture (reject (ServiceError ''503'')) 1793583300000 1793583301000 sample_image
              (openCamera (initial None))) = receipts (openCamera (initial None))
   \<and> activeView (handleCapture (reject (ServiceError ''503'')) 1793583300000 1793583301000 sample_image
              (openCamera (initial None))) = activeView (openCamera (initial None))"
    using extraction_failure_handling
        [where ai = "reject (ServiceError ''503'')" and img = sample_image and e = "ServiceError ''503''"
           and t = 1793583300000 and t' = 1793583301000 and s = "openCamera (initial None)"] d
    by blast
  have i: "alerts (openCamera (initial None)) = [] \<and> receipts (openCamera (initial None)) = []
           \<and> activeView (openCamera (initial None)) = History"
    by (simp add: openCamera_def initial_def)
  show ?thesis
    using d w1 w2 w3 w4 w5 i ov u by simp
qed

text \<open>
  Claim C7 as stated fails twice. On the schema: the response \<open>5\<close> is valid JSON that
  violates the schema, and \<open>processReceipt\<close> resolves to the record of the five defaults
  instead of rejecting. On the view: the camera button is shown in the edit view too;
  after one successful capture the view is the edit form, and a second capture from
  there that fails leaves the edit form showing, not the list.
\<close>

theorem extraction_failure_counterexample:
  \<open>processReceipt (respond (Some ''5'')) 1793583300000 sample_image
     = Inr \<lparr> x_date = VStr ''2026-11-02'', x_merchant = VStr ''Unknown Merchant'',
             x_total = VNum Zero, x_category = VStr ''Other'',
             x_paymentSource = VStr ''Unknown'' \<rparr>
   \<and> activeView
       (handleCapture (reject (ServiceError ''503'')) 1793583400000 1793583401000 sample_image
          (openCamera
             (handleCapture (respond (Some ''{"merchant": "Cafe Luna", "total": 12.5}''))
                1793583300000 1793583301000 sample_image (initial None))))
      = Edit\<close>
  by code_simp

section \<open>The edit form: the total\<close>

lemma number_value_not_NaN: "number_value neg ds p \<noteq> NaN"
  by (simp add: number_value_def to_double_def)

lemma takeWhile_digits_append:
  "list_all is_digit ds \<Longrightarrow> rest = [] \<or> \<not> is_digit (hd rest) \<Longrightarrow> takeWhile is_digit (ds @ rest) = ds"
  by (cases rest) (auto simp: list_all_iff takeWhile_append2 intro: takeWhile_eq_all_conv [THEN iffD2])

lemma dropWhile_digits_append:
  "list_all is_digit ds \<Longrightarrow> rest = [] \<or> \<not> is_digit (hd rest) \<Longrightarrow> dropWhile is_digit (ds @ rest) = rest"
  by (cases rest) (auto simp: list_all_iff dropWhile_append2)









section \<open>The payment source\<close>

text \<open>
  Claim C9, as the code has it. A response object without \<open>paymentSource\<close> gives the
  extraction result \<open>Unknown\<close>. The edit form opened on a draft without
  \<open>paymentSource\<close> starts with \<open>Credit Card\<close>, and confirming it unchanged stores
  \<open>Credit Card\<close>; the stored payment source is always the form's text.
\<close>

theorem paymentSource_defaults:
  "(ai (generateContent_request img) = Inr resp
      \<and> JSON_parse (response_text resp) = Parsed (VObj fs) r
      \<and> map_of fs ''paymentSource'' = None
    \<longrightarrow> (\<exists>x. processReceipt ai now img = Inr x \<and> x_paymentSource x = VStr ''Unknown''))
   \<and> (d_paymentSource d = None
        \<longrightarrow> f_paymentSource (ReceiptEdit t d) = ''Credit Card''
            \<and> paymentSource (handleSubmit t' d (ReceiptEdit t d)) = ''Credit Card'')
   \<and> paymentSource (handleSubmit t' d fd) = f_paymentSource fd"
proof -
  have a: "\<exists>x. processReceipt ai now img = Inr x \<and> x_paymentSource x = VStr ''Unknown''"
    if "ai (generateContent_request img) = Inr resp"
       "JSON_parse (response_text resp) = Parsed (VObj fs) r"
       "map_of fs ''paymentSource'' = None"
    using that(3)
    by (simp add: processReceipt_object [where ai = ai and img = img, OF that(1,2)]
          extracted_or_def)
  show ?thesis
    using a by (auto simp: ReceiptEdit_def handleSubmit_def str_or_def)
qed

theorem paymentSource_defaults_witness:
  \<open>(\<exists>x. processReceipt (respond (Some ''{"merchant": "Cafe Luna", "total": 12.5}'')) 1793583300000
           sample_image = Inr x
        \<and> x_paymentSource x = VStr ''Unknown'')
   \<and> f_paymentSource (ReceiptEdit 1793583301000 blank_draft) = ''Credit Card''
   \<and> paymentSource (handleSubmit 1793583309000 blank_draft (ReceiptEdit 1793583301000 blank_draft))
       = ''Credit Card''\<close>
proof -
  have a: \<open>respond (Some ''{"merchant": "Cafe Luna", "total": 12.5}'')
             (generateContent_request sample_image)
           = Inr (Some ''{"merchant": "Cafe Luna", "total": 12.5}'')
          \<and> JSON_parse (response_text (Some ''{"merchant": "Cafe Luna", "total": 12.5}''))
           = Parsed (VObj [(''merchant'', VStr ''Cafe Luna''),
                           (''total'', VNum (Decimal False [1, 2, 5] 2))]) []
          \<and> map_of [(''merchant'', VStr ''Cafe Luna''),
                     (''total'', VNum (Decimal False [1, 2, 5] 2))] ''paymentSource'' = None\<close>
    by code_simp
  have b: "d_paymentSource blank_draft = None" by (simp add: blank_draft_def)
  show ?thesis
    using a b
      paymentSource_defaults
        [where ai = \<open>respond (Some ''{"merchant": "Cafe Luna", "total": 12.5}'')\<close>
           and img = sample_image and now = 1793583300000
           and resp = \<open>Some ''{"merchant": "Cafe Luna", "total": 12.5}''\<close>
           and fs = "[(''merchant'', VStr ''Cafe Luna''), (''total'', VNum (Decimal False [1, 2, 5] 2))]"
           and r = "[]" and d = blank_draft and t = 1793583301000 and t' = 1793583309000]
    by simp
qed

text \<open>
  Claim C9 as stated fails for the form: confirming the form opened on a draft without
  \<open>paymentSource\<close> stores \<open>Credit Card\<close>, not \<open>Unknown\<close>.
\<close>

theorem form_paymentSource_counterexample:
  "paymentSource (handleSubmit 1793583309000 blank_draft (ReceiptEdit 1793583301000 blank_draft))
     = ''Credit Card''
   \<and> ''Credit Card'' \<noteq> ''Unknown''"
  by code_simp

section \<open>What a stored record holds\<close>

lemma category_text_listed: "category_text c \<in> set categories"
  by (cases c) (simp_all add: categories_def)

lemma onChange_category:
  "f_category fd \<in> set categories \<or> d_category d = Some (f_category fd)
   \<Longrightarrow> f_category (onChange fd c) \<in> set categories
       \<or> d_category d = Some (f_category (onChange fd c))"
  by (cases c) (auto simp: category_text_listed)

lemma changes_category:
  "f_category fd \<in> set categories \<or> d_category d = Some (f_category fd)
   \<Longrightarrow> f_category (foldl onChange fd cs) \<in> set categories
       \<or> d_category d = Some (f_category (foldl onChange fd cs))"
proof (induction cs arbitrary: fd)
  case Nil
  then show ?case by simp
next
  case (Cons c cs)
  show ?case
    using Cons.IH [OF onChange_category [OF Cons.prems]] by simp
qed

lemma ReceiptEdit_category:
  "f_category (ReceiptEdit t d) \<in> set categories \<or> d_category d = Some (f_category (ReceiptEdit t d))"
  using category_text_listed [of OTHER]
  by (auto simp: ReceiptEdit_def str_or_def split: option.splits simp del: category_text.simps)

text \<open>
  Every event leaves the receipts as they are, or marks them all synced, or is a
  confirmation that puts the record of \<open>handleSubmit\<close> in front of them.
\<close>

lemma handleSubmit_not_NaN: "total (handleSubmit t d fd) \<noteq> NaN"
  by (simp add: handleSubmit_def num_or_def)

lemma step_receipts:
  "receipts (step s e) = receipts s
   \<or> receipts (step s e) = map (\<lambda>r. r\<lparr>status := Synced\<rparr>) (receipts s)
   \<or> (\<exists>t d fd. e = Done t d fd \<and> receipts (step s e) = handleSubmit t d fd # receipts s)"
proof (cases e)
  case (Settled ai t t' base64)
  then show ?thesis
    by (simp add: handleCapture_settled_def split: sum.splits)
next
  case Timer
  then show ?thesis
    by (simp add: run_timer_def simulateSync_callback_def persist_def)
next
  case (Done t d fd)
  then show ?thesis
    by (simp add: saveReceipt_def persist_def)
qed (simp_all add: openCamera_def closeCamera_def handleCapture_begin_def handleFileUpload_def
       showHistory_def openSetup_def simulateSync_def)

lemma step_totals:
  assumes "\<forall>r\<in>set (receipts s). total r \<noteq> NaN"
  shows "\<forall>r\<in>set (receipts (step s e)). total r \<noteq> NaN"
  using step_receipts [of s e] assms handleSubmit_not_NaN by auto

lemma run_totals:
  "\<forall>r\<in>set (receipts s). total r \<noteq> NaN \<Longrightarrow> \<forall>r\<in>set (receipts (run s es)). total r \<noteq> NaN"
  unfolding run_def
proof (induction es arbitrary: s)
  case Nil
  then show ?case by simp
next
  case (Cons e es)
  from Cons.IH [OF step_totals [OF Cons.prems, of e]] show ?case by simp
qed

text \<open>
  No number that \<open>JSON.parse\<close> reads is \<open>NaN\<close>, so no total of a loaded store is.
\<close>

lemma map_parsed_Parsed: "map_parsed g x = Parsed v r \<Longrightarrow> \<exists>w. x = Parsed w r \<and> v = g w"
  by (cases x) simp_all

lemma number_body_no_NaN: "number_body neg cs = Parsed n r \<Longrightarrow> n \<noteq> NaN"
  by (auto simp: number_body_def Let_def number_value_not_NaN split: if_splits option.splits)

lemma parse_number_no_NaN: "parse_number cs = Parsed n r \<Longrightarrow> n \<noteq> NaN"
  by (auto simp: parse_number_def split: if_splits dest: number_body_no_NaN)

lemma update_list_all:
  "list_all Q acc \<Longrightarrow> Q (k, v) \<Longrightarrow> list_all Q (AList.update k v acc)"
  by (induction acc) auto

lemma parses_no_NaN_D:
  assumes "parses_no_NaN f"
  shows "\<And>cs v r. parse_value f cs = Parsed v r \<Longrightarrow> no_NaN v"
    and "\<And>cs vs r. parse_elements f cs = Parsed vs r \<Longrightarrow> list_all no_NaN vs"
    and "\<And>acc cs kvs r. list_all (\<lambda>p. no_NaN (snd p)) acc \<Longrightarrow> parse_members f acc cs = Parsed kvs r
          \<Longrightarrow> list_all (\<lambda>p. no_NaN (snd p)) kvs"
  using assms unfolding parses_no_NaN_def by blast+

lemma value_no_NaN:
  assumes ok: "parses_no_NaN f" and p: "parse_value (Suc f) cs = Parsed v r"
  shows "no_NaN v"
proof -
  note E = parses_no_NaN_D(2) [OF ok] and M = parses_no_NaN_D(3) [OF ok]
  from p have ne: "cs \<noteq> []" by (auto split: if_splits)
  consider (str) "hd cs = CHR 0x22"
    | (arr) "hd cs \<noteq> CHR 0x22" "hd cs = CHR ''[''"
    | (obj) "hd cs \<noteq> CHR 0x22" "hd cs \<noteq> CHR ''[''" "hd cs = CHR ''{''"
    | (lit) "hd cs \<noteq> CHR 0x22" "hd cs \<noteq> CHR ''[''" "hd cs \<noteq> CHR ''{''"
    by blast
  then show ?thesis
  proof cases
    case str
    with p ne show ?thesis by (auto dest!: map_parsed_Parsed)
  next
    case arr
    show ?thesis
    proof (cases "skip_ws (tl cs) \<noteq> [] \<and> hd (skip_ws (tl cs)) = CHR '']''")
      case True
      with p ne arr show ?thesis by auto
    next
      case False
      with p ne arr obtain w where "parse_elements f (skip_ws (tl cs)) = Parsed w r" "v = VArr w"
        by (auto dest!: map_parsed_Parsed)
      with E show ?thesis by auto
    qed
  next
    case obj
    show ?thesis
    proof (cases "skip_ws (tl cs) \<noteq> [] \<and> hd (skip_ws (tl cs)) = CHR ''}''")
      case True
      with p ne obj show ?thesis by auto
    next
      case False
      with p ne obj obtain w where "parse_members f [] (skip_ws (tl cs)) = Parsed w r" "v = VObj w"
        by (auto dest!: map_parsed_Parsed)
      with M [of "[]"] show ?thesis by auto
    qed
  next
    case lit
    with p ne have "v = VBool True \<or> v = VBool False \<or> v = VNull \<or> (\<exists>n. parse_number cs = Parsed n r \<and> v = VNum n)"
      by (auto split: if_splits dest!: map_parsed_Parsed)
    then show ?thesis by (auto dest: parse_number_no_NaN)
  qed
qed

lemma elements_no_NaN:
  assumes ok: "parses_no_NaN f" and p: "parse_elements (Suc f) cs = Parsed vs r"
  shows "list_all no_NaN vs"
proof (cases "parse_value f cs")
  case (Parsed v r1)
  note V = parses_no_NaN_D(1) [OF ok Parsed] and E = parses_no_NaN_D(2) [OF ok]
  show ?thesis
  proof (cases "skip_ws r1 \<noteq> [] \<and> hd (skip_ws r1) = CHR '',''")
    case True
    with p Parsed obtain w where "parse_elements f (skip_ws (tl (skip_ws r1))) = Parsed w r" "vs = v # w"
      by (auto dest!: map_parsed_Parsed)
    with E V show ?thesis by auto
  next
    case False
    with p Parsed have "vs = [v]" by (auto split: if_splits)
    with V show ?thesis by simp
  qed
qed (use p in simp_all)

lemma members_no_NaN:
  assumes ok: "parses_no_NaN f" and a: "list_all (\<lambda>p. no_NaN (snd p)) acc"
      and p: "parse_members (Suc f) acc cs = Parsed kvs r"
  shows "list_all (\<lambda>p. no_NaN (snd p)) kvs"
proof -
  note V = parses_no_NaN_D(1) [OF ok] and M = parses_no_NaN_D(3) [OF ok]
  from p have start: "\<not> (cs = [] \<or> hd cs \<noteq> CHR 0x22)" by (auto split: if_splits)
  show ?thesis
  proof (cases "parse_chars (tl cs)")
    case (Parsed k r1)
    from p start Parsed have colon: "\<not> (skip_ws r1 = [] \<or> hd (skip_ws r1) \<noteq> CHR '':'')"
      by (auto split: if_splits)
    show ?thesis
    proof (cases "parse_value f (skip_ws (tl (skip_ws r1)))")
      case val: (Parsed v r2)
      from V [OF val] a have u: "list_all (\<lambda>p. no_NaN (snd p)) (AList.update k v acc)"
        by (intro update_list_all) simp_all
      show ?thesis
      proof (cases "skip_ws r2 \<noteq> [] \<and> hd (skip_ws r2) = CHR '',''")
        case True
        with p start Parsed colon val
        have "parse_members f (AList.update k v acc) (skip_ws (tl (skip_ws r2))) = Parsed kvs r"
          by simp
        from M [OF u this] show ?thesis .
      next
        case False
        with p start Parsed colon val have "kvs = AList.update k v acc"
          by (auto split: if_splits)
        with u show ?thesis by simp
      qed
    qed (use p start Parsed colon in simp_all)
  qed (use p start in simp_all)
qed

lemma parses_no_NaN_all: "parses_no_NaN f"
proof (induction f)
  case 0
  show ?case by (simp add: parses_no_NaN_def)
next
  case (Suc f)
  show ?case
    unfolding parses_no_NaN_def
    using value_no_NaN [OF Suc] elements_no_NaN [OF Suc] members_no_NaN [OF Suc]
    by blast
qed

lemma JSON_parse_no_NaN:
  assumes "JSON_parse s = Parsed v r"
  shows "no_NaN v"
proof (cases "parse_value (Suc (2 * length s)) (skip_ws s)")
  case (Parsed w r1)
  with assms have "v = w" by (simp add: JSON_parse_def split: if_splits)
  with parses_no_NaN_D(1) [OF parses_no_NaN_all Parsed] show ?thesis by simp
qed (use assms in \<open>simp_all add: JSON_parse_def\<close>)

lemma as_receipt_total:
  assumes "as_receipt v = Some r" "no_NaN v"
  shows "total r \<noteq> NaN"
proof -
  from assms(1) obtain fs where v: "v = VObj fs" and n: "num_field fs ''total'' = Some (total r)"
    by (cases v) (auto simp: as_receipt_def split: if_splits Option.bind_splits)
  from n have "map_of fs ''total'' = Some (VNum (total r))"
    by (auto simp: num_field_def split: option.splits jsval.splits)
  then have "(''total'', VNum (total r)) \<in> set fs" by (rule map_of_SomeD)
  with assms(2) v show ?thesis by (auto simp: list_all_iff)
qed

lemma those_as_receipt_totals:
  "those (map as_receipt xs) = Some rs \<Longrightarrow> list_all no_NaN xs \<Longrightarrow> \<forall>r\<in>set rs. total r \<noteq> NaN"
proof (induction xs arbitrary: rs)
  case Nil
  then show ?case by simp
next
  case (Cons x xs)
  from Cons.prems(1) obtain r rs' where x: "as_receipt x = Some r" and t: "those (map as_receipt xs) = Some rs'"
    and rs: "rs = r # rs'"
    by (auto split: option.splits)
  from as_receipt_total [OF x] Cons.prems(2) Cons.IH [OF t] rs show ?case by simp
qed

lemma mount_totals:
  assumes "mount slot = Running s"
  shows "\<forall>r\<in>set (receipts s). total r \<noteq> NaN"
proof (cases "slot = None \<or> slot = Some []")
  case True
  with assms have "s = persist (initial slot)" by (auto simp: mount_def)
  then show ?thesis by (simp add: persist_def initial_def)
next
  case False
  then obtain saved where sl: "slot = Some saved" "saved \<noteq> []" by auto
  with assms obtain v r rs where p: "JSON_parse saved = Parsed v r" and a: "as_receipts v = Some rs"
    and s: "s = persist ((initial slot)\<lparr>receipts := rs\<rparr>)"
    by (auto simp: mount_def split: parsed.splits option.splits)
  from a obtain xs where v: "v = VArr xs" and t: "those (map as_receipt xs) = Some rs"
    by (cases v) (auto simp: as_receipts_def)
  from JSON_parse_no_NaN [OF p] v have "list_all no_NaN xs" by simp
  from those_as_receipt_totals [OF t this] s show ?thesis by (simp add: persist_def)
qed

text \<open>
  Claim C6, as the code has it. In every state that a run of events reaches from a state
  whose stored totals are not \<open>NaN\<close>, and so in every state reached after a start on
  any storage that loads as receipts, no stored total is \<open>NaN\<close>. A record enters the
  store only by a confirmation, with the total \<open>parseFloat(formData.total) || 0\<close> and the
  category text of the form, and no later event changes either. The category text of a
  form opened on a draft, whatever the user changed since, is one of the six of the
  enumeration or else that draft's own category.
\<close>

theorem stored_record_invariant:
  "((\<forall>r\<in>set (receipts s). total r \<noteq> NaN) \<longrightarrow> (\<forall>r\<in>set (receipts (run s es)). total r \<noteq> NaN))
   \<and> (mount slot = Running s0 \<longrightarrow> (\<forall>r\<in>set (receipts (run s0 es)). total r \<noteq> NaN))
   \<and> (receipts (step s e) = receipts s
       \<or> receipts (step s e) = map (\<lambda>r. r\<lparr>status := Synced\<rparr>) (receipts s)
       \<or> (\<exists>t d fd. e = Done t d fd \<and> receipts (step s e) = handleSubmit t d fd # receipts s))
   \<and> (activeView s = Edit \<and> currentEdit s \<noteq> None \<longrightarrow>
        receipts (step s (Done t d fd)) = handleSubmit t d fd # receipts s)
   \<and> total (handleSubmit t d fd) = num_or (parseFloat (f_total fd)) Zero
   \<and> category (handleSubmit t d fd) = f_category fd
   \<and> (f_category (foldl onChange (ReceiptEdit t0 d0) cs) \<in> set categories
       \<or> d_category d0 = Some (f_category (foldl onChange (ReceiptEdit t0 d0) cs)))"
proof -
  have g: "activeView s = Edit \<and> currentEdit s \<noteq> None \<longrightarrow>
        receipts (step s (Done t d fd)) = handleSubmit t d fd # receipts s"
    by (simp add: saveReceipt_def persist_def)
  have a: "(\<forall>r\<in>set (receipts s). total r \<noteq> NaN) \<longrightarrow> (\<forall>r\<in>set (receipts (run s es)). total r \<noteq> NaN)"
    using run_totals [of s es] by blast
  have b: "mount slot = Running s0 \<longrightarrow> (\<forall>r\<in>set (receipts (run s0 es)). total r \<noteq> NaN)"
  proof
    assume "mount slot = Running s0"
    then have "\<forall>r\<in>set (receipts s0). total r \<noteq> NaN" by (rule mount_totals)
    then show "\<forall>r\<in>set (receipts (run s0 es)). total r \<noteq> NaN" by (rule run_totals)
  qed
  have c: "total (handleSubmit t d fd) = num_or (parseFloat (f_total fd)) Zero"
    and e: "category (handleSubmit t d fd) = f_category fd"
    by (simp_all add: handleSubmit_def)
  from a b step_receipts [of s e] g c e
    changes_category [OF ReceiptEdit_category [of t0 d0], where cs = cs]
  show ?thesis by (intro conjI)
qed

theorem stored_record_invariant_witness:
  "mount None = Running (persist (initial None))
   \<and> receipts (run (persist (initial None))
        [TapCamera, Shutter sample_image,
         Settled (respond (Some odd_response)) 1793583300000 1793583301000 sample_image,
         Done 1793583309000 odd_draft
           (foldl onChange (ReceiptEdit 1793583301000 odd_draft) [ChangeCategory FOOD, ChangeTotal ''4.x''])])
       = [\<lparr> rid = ''1793583301000'', date = ''2026-10-31'', merchant = ''Cafe Luna'',
             total = Zero, paymentSource = ''Unknown'', category = ''Food & Dining'',
             status = Pending, imageUrl = Some sample_image \<rparr>]
   \<and> total (hd (receipts (run (persist (initial None))
        [TapCamera, Shutter sample_image,
         Settled (respond (Some odd_response)) 1793583300000 1793583301000 sample_image,
         Done 1793583309000 odd_draft
           (foldl onChange (ReceiptEdit 1793583301000 odd_draft) [ChangeCategory FOOD, ChangeTotal ''4.x''])])))
       \<noteq> NaN
   \<and> f_category (foldl onChange (ReceiptEdit 1793583301000 odd_draft) [ChangeCategory FOOD, ChangeTotal ''4.x''])
       \<in> set categories"
proof -
  let ?es = "[TapCamera, Shutter sample_image,
         Settled (respond (Some odd_response)) 1793583300000 1793583301000 sample_image,
         Done 1793583309000 odd_draft
           (foldl onChange (ReceiptEdit 1793583301000 odd_draft) [ChangeCategory FOOD, ChangeTotal ''4.x''])]"
  have m: "mount None = Running (persist (initial None))" by (simp add: mount_def)
  have r: "receipts (run (persist (initial None)) ?es)
       = [\<lparr> rid = ''1793583301000'', date = ''2026-10-31'', merchant = ''Cafe Luna'',
             total = Zero, paymentSource = ''Unknown'', category = ''Food & Dining'',
             status = Pending, imageUrl = Some sample_image \<rparr>]"
    by code_simp
  have g: "''Groceries'' \<notin> set categories" by code_simp
  have f: "f_category (foldl onChange (ReceiptEdit 1793583301000 odd_draft) [ChangeCategory FOOD, ChangeTotal ''4.x''])
             = ''Food & Dining''"
    by code_simp
  note w = stored_record_invariant
     [where slot = None and ?s0.0 = "persist (initial None)" and es = ?es and ?t0.0 = 1793583301000 and ?d0.0 = odd_draft
        and cs = "[ChangeCategory FOOD, ChangeTotal ''4.x'']"]
  from w m have "\<forall>r\<in>set (receipts (run (persist (initial None)) ?es)). total r \<noteq> NaN"
    by blast
  moreover have "hd (receipts (run (persist (initial None)) ?es)) \<in> set (receipts (run (persist (initial None)) ?es))"
    using r by (metis list.sel(1) list.set_intros(1))
  ultimately have t: "total (hd (receipts (run (persist (initial None)) ?es))) \<noteq> NaN"
    by blast
  from w have "f_category (foldl onChange (ReceiptEdit 1793583301000 odd_draft) [ChangeCategory FOOD, ChangeTotal ''4.x''])
       \<in> set categories
       \<or> d_category odd_draft = Some (f_category (foldl onChange (ReceiptEdit 1793583301000 odd_draft) [ChangeCategory FOOD, ChangeTotal ''4.x'']))"
    by blast
  then have c: "f_category (foldl onChange (ReceiptEdit 1793583301000 odd_draft) [ChangeCategory FOOD, ChangeTotal ''4.x''])
       \<in> set categories"
    using g by (auto simp: f odd_draft_def)
  from m r t c show ?thesis by (intro conjI)
qed

text \<open>
  Claim C6 as stated fails. A response with the total -5 and the category \<open>Groceries\<close>,
  confirmed unchanged, is stored with that negative total and that category, which is
  none of the six; and a response with the total \<open>1e400\<close>, confirmed unchanged, is stored
  with an infinite total.
\<close>

theorem stored_record_counterexample:
  "map_option as_draft
     (currentEdit (run (persist (initial None))
        [TapCamera, Shutter sample_image,
         Settled (respond (Some odd_response)) 1793583300000 1793583301000 sample_image]))
     = Some (Some odd_draft)
   \<and> receipts (run (persist (initial None))
        [TapCamera, Shutter sample_image,
         Settled (respond (Some odd_response)) 1793583300000 1793583301000 sample_image,
         Done 1793583309000 odd_draft (ReceiptEdit 1793583301000 odd_draft)])
       = [\<lparr> rid = ''1793583301000'', date = ''2026-10-31'', merchant = ''Cafe Luna'',
             total = Decimal True [5] 1, paymentSource = ''Unknown'', category = ''Groceries'',
             status = Pending, imageUrl = Some sample_image \<rparr>]
   \<and> \<not> nonneg_finite (Decimal True [5] 1)
   \<and> ''Groceries'' \<notin> set categories
   \<and> map_option as_draft
       (currentEdit (run (persist (initial None))
          [TapCamera, Shutter sample_image,
           Settled (respond (Some huge_response)) 1793583300000 1793583301000 sample_image]))
       = Some (Some huge_draft)
   \<and> receipts (run (persist (initial None))
        [TapCamera, Shutter sample_image,
         Settled (respond (Some huge_response)) 1793583300000 1793583301000 sample_image,
         Done 1793583309000 huge_draft (ReceiptEdit 1793583301000 huge_draft)])
       = [\<lparr> rid = ''1793583301000'', date = ''2026-10-31'', merchant = ''Lotto'',
             total = Infinite False, paymentSource = ''Unknown'', category = ''Other'',
             status = Pending, imageUrl = Some sample_image \<rparr>]
   \<and> \<not> nonneg_finite (Infinite False)"
  by code_simp

section \<open>Loading the store\<close>

text \<open>
  Claim C2, as the code has it. With the slot absent or empty the application starts with
  no receipts. A stored text that \<open>JSON.parse\<close> rejects makes the load throw a
  \<open>SyntaxError\<close> that nothing catches. A stored text that parses to an array of receipts
  starts the application with those receipts and no notice; any other parsed value is put
  into the state unchecked.
\<close>

theorem mount_outcomes:
  "(slot = None \<or> slot = Some [] \<longrightarrow>
       mount slot = Running ((initial slot)\<lparr>storage := Some ''[]''\<rparr>))
   \<and> (saved \<noteq> [] \<and> JSON_parse saved = Malformed \<longrightarrow> mount (Some saved) = Crashed SyntaxError)
   \<and> (saved \<noteq> [] \<and> JSON_parse saved = Parsed v r \<and> as_receipts v = Some rs \<longrightarrow>
        (\<exists>s. mount (Some saved) = Running s \<and> receipts s = rs \<and> activeView s = History
            \<and> alerts s = []))
   \<and> (saved \<noteq> [] \<and> JSON_parse saved = Parsed v r \<and> as_receipts v = None \<longrightarrow>
        mount (Some saved) = Untyped v)"
  by (auto simp: mount_def persist_def initial_def JSON_stringify_def)

theorem mount_outcomes_witness:
  \<open>mount None = Running ((initial None)\<lparr>storage := Some ''[]''\<rparr>)
   \<and> mount (Some ''{'') = Crashed SyntaxError
   \<and> (\<exists>s. mount (Some ''[]'') = Running s \<and> receipts s = [] \<and> activeView s = History
          \<and> alerts s = [])
   \<and> mount (Some ''5'') = Untyped (VNum (Decimal False [5] 1))\<close>
proof -
  have a: \<open>''{'' \<noteq> [] \<and> JSON_parse ''{'' = Malformed\<close> by code_simp
  have b: \<open>''[]'' \<noteq> [] \<and> JSON_parse ''[]'' = Parsed (VArr []) [] \<and> as_receipts (VArr []) = Some []\<close>
    by code_simp
  have c: \<open>''5'' \<noteq> [] \<and> JSON_parse ''5'' = Parsed (VNum (Decimal False [5] 1)) []
           \<and> as_receipts (VNum (Decimal False [5] 1)) = None\<close>
    by code_simp
  show ?thesis
    using a b c
      mount_outcomes [where slot = None and saved = "''{''"]
      mount_outcomes [where saved = "''[]''" and v = "VArr []" and r = "[]" and rs = "[]"]
      mount_outcomes [where saved = "''5''" and v = "VNum (Decimal False [5] 1)" and r = "[]"]
    by blast
qed

text \<open>
  Claim C2 as stated fails: a stored text cut off in the middle does not load as an empty
  history; the load throws.
\<close>

theorem corrupt_storage_counterexample:
  \<open>mount (Some ''[{"id":"1793583301000","date":"2026-1'') = Crashed SyntaxError\<close>
  by code_simp

section \<open>Strings through \<open>JSON.stringify\<close> and \<open>JSON.parse\<close>\<close>

text \<open>The parser reads a quoted string back, whatever follows the closing quote.\<close>

lemma hex_val_hex_digit: "n < 16 \<Longrightarrow> hex_val (hex_digit n) = Some n"
  by (auto simp: hex_val_def hex_digit_def Let_def)

lemma hex4_u00:
  assumes "n < 256"
  shows "hex4 [CHR ''0'', CHR ''0'', hex_digit (n div 16), hex_digit (n mod 16)] = Some n"
proof -
  have a: "n div 16 < 16" using assms by simp
  have b: "n mod 16 < 16" by simp
  have z: "hex_val (CHR ''0'') = Some 0" by (simp add: hex_val_def)
  show ?thesis
    by (simp add: z hex_val_hex_digit [OF a] hex_val_hex_digit [OF b])
qed

lemma parse_chars_quote_char:
  "parse_chars (quote_char c @ cs) = map_parsed ((#) c) (parse_chars cs)"
proof -
  have n: "(of_char c :: nat) < 256" by simp
  consider (q) "c = CHR 0x22" | (b) "c = CHR 0x5C"
    | (s) "c \<in> {CHR 0x08, CHR 0x0C, CHR 0x0A, CHR 0x0D, CHR 0x09}"
    | (u) "c \<notin> {CHR 0x22, CHR 0x5C, CHR 0x08, CHR 0x0C, CHR 0x0A, CHR 0x0D, CHR 0x09}" "(of_char c :: nat) < 32"
    | (p) "c \<noteq> CHR 0x22" "c \<noteq> CHR 0x5C" "\<not> (of_char c :: nat) < 32"
    by auto
  then show ?thesis
  proof cases
    case q
    then show ?thesis by (simp add: quote_char_def escape_char_def)
  next
    case b
    then show ?thesis by (simp add: quote_char_def escape_char_def)
  next
    case s
    then show ?thesis by (auto simp: quote_char_def escape_char_def)
  next
    case u
    then show ?thesis
      using hex4_u00 [OF n]
      by (simp add: quote_char_def)
  next
    case p
    then have "quote_char c = [c]" by (auto simp: quote_char_def)
    with p show ?thesis by simp
  qed
qed

lemma parse_chars_quoted:
  "parse_chars (concat (map quote_char s) @ CHR 0x22 # rest) = Parsed s rest"
  by (induction s) (simp_all add: parse_chars_quote_char)

lemma parse_chars_quote: "parse_chars (tl (quote s) @ rest) = Parsed s rest"
  by (simp add: quote_def parse_chars_quoted)

section \<open>Numbers through \<open>JSON.stringify\<close> and \<open>JSON.parse\<close>\<close>

text \<open>
  A finite number in normal form, printed by \<open>Number.prototype.toString\<close> in any of its
  four layouts, is read back as the same number.
\<close>

lemma digit_val_digit_char: "d < 10 \<Longrightarrow> digit_val (digit_char d) = d"
  by (simp add: digit_val_def digit_char_def)

lemma map_digit_val_digit_char:
  "list_all (\<lambda>d. d < 10) ds \<Longrightarrow> map digit_val (map digit_char ds) = ds"
  by (induction ds) (simp_all add: digit_val_digit_char)

lemma map_digit_val_comp:
  "list_all (\<lambda>d. d < 10) ds \<Longrightarrow> map (digit_val \<circ> digit_char) ds = ds"
  using map_digit_val_digit_char [of ds] by simp

lemma list_all_is_digit_digit_char:
  "list_all (\<lambda>d. d < 10) ds \<Longrightarrow> list_all is_digit (map digit_char ds)"
  by (induction ds) (simp_all add: is_digit_digit_char)

lemma digit_char_0: "digit_char 0 = CHR ''0''"
  by code_simp

lemma digit_char_eq_zero: "d < 10 \<Longrightarrow> (digit_char d = CHR ''0'') = (d = 0)"
proof
  assume "d < 10" "digit_char d = CHR ''0''"
  then have "digit_val (digit_char d) = digit_val (digit_char 0)" by (simp add: digit_char_0)
  with \<open>d < 10\<close> show "d = 0" by (simp add: digit_val_digit_char)
qed (simp add: digit_char_0)

lemma digits_val_snoc: "digits_val (ds @ [d]) = 10 * digits_val ds + int d"
  by (simp add: digits_val_def)

lemma digits_val_digits_of: "0 \<le> m \<Longrightarrow> digits_val (digits_of m) = m"
proof (induction m rule: digits_of.induct)
  case (1 i)
  show ?case
  proof (cases "i < 10")
    case True
    with "1.prems" show ?thesis by (simp add: digits_of.simps [of i] digits_val_def)
  next
    case False
    then have "0 \<le> i div 10" by simp
    with False "1.IH" have "digits_val (digits_of (i div 10)) = i div 10" by simp
    with False show ?thesis
      by (simp add: digits_of.simps [of i] digits_val_snoc)
  qed
qed

lemma digits_of_all_lt10: "list_all (\<lambda>d. d < 10) (digits_of m)"
  by (simp add: list_all_iff digits_of_lt10)

lemma digits_of_nonempty: "digits_of m \<noteq> []"
  by (simp add: digits_of.simps [of m])

lemma dropWhile_zeros:
  "dropWhile (\<lambda>d. d = (0::nat)) (replicate b 0 @ ys) = dropWhile (\<lambda>d. d = 0) ys"
  by (induction b) simp_all

lemma takeWhile_zeros:
  "takeWhile (\<lambda>d. d = (0::nat)) (replicate a 0 @ ys) = replicate a 0 @ takeWhile (\<lambda>d. d = 0) ys"
  by (induction a) simp_all

lemma strip_zeros_padded:
  assumes "canonical ds"
  shows "strip_zeros (replicate a 0 @ ds @ replicate b 0) = ds"
    and "length (takeWhile (\<lambda>d. d = 0) (replicate a 0 @ ds @ replicate b 0)) = a"
proof -
  from assms obtain x xs where ds: "ds = x # xs" and x: "x \<noteq> 0"
    by (cases ds) (auto simp: canonical_def)
  from assms have l: "last ds \<noteq> 0" and ne: "ds \<noteq> []" by (auto simp: canonical_def)
  have d1: "dropWhile (\<lambda>d. d = 0) (replicate a 0 @ ds @ replicate b 0) = ds @ replicate b 0"
    using x by (simp add: ds dropWhile_zeros)
  have r: "rev ds = last ds # rev (butlast ds)"
    using ne by (metis append_butlast_last_id rev.simps(2) rev_append rev_singleton_conv append_Cons append_Nil rev_rev_ident)
  have d2: "dropWhile (\<lambda>d. d = 0) (replicate b 0 @ rev ds) = rev ds"
    using l by (simp add: r dropWhile_zeros)
  show "strip_zeros (replicate a 0 @ ds @ replicate b 0) = ds"
    by (simp add: strip_zeros_def d1 d2)
  show "length (takeWhile (\<lambda>d. d = 0) (replicate a 0 @ ds @ replicate b 0)) = a"
    using x by (simp add: ds takeWhile_zeros)
qed

lemma number_value_padded:
  assumes "canonical ds" "\<not> overflows ds n" "\<not> underflows ds n" "p = n + int a"
  shows "number_value neg (replicate a 0 @ ds @ replicate b 0) p = Decimal neg ds n"
  using assms strip_zeros_padded [OF assms(1), of a b]
  by (simp add: number_value_def to_double_def canonical_def)

lemma not_digit_chars:
  "\<not> is_digit (CHR ''.'')" "\<not> is_digit (CHR ''e'')" "\<not> is_digit (CHR ''E'')"
  "\<not> is_digit (CHR ''-'')" "\<not> is_digit (CHR ''+'')"
  by (simp_all add: is_digit_def)

lemma span_digits:
  assumes "list_all (\<lambda>d. d < 10) ds" and "ys = [] \<or> \<not> is_digit (hd ys)"
  shows "takeWhile is_digit (map digit_char ds @ ys) = map digit_char ds"
    and "dropWhile is_digit (map digit_char ds @ ys) = ys"
  using takeWhile_digits_append [OF list_all_is_digit_digit_char [OF assms(1)] assms(2)]
        dropWhile_digits_append [OF list_all_is_digit_digit_char [OF assms(1)] assms(2)]
  by simp_all

lemma signed_integer_shown:
  assumes "0 \<le> m" and "rest = [] \<or> \<not> is_digit (hd rest)"
  shows "signed_integer ((if e_neg then CHR ''-'' else CHR ''+'') # show_int m @ rest)
           = Some (if e_neg then - m else m, rest)"
proof -
  have sh: "show_int m = map digit_char (digits_of m)"
    using assms(1) by (simp add: show_int_def)
  have ne: "map digit_char (digits_of m) \<noteq> []" by (simp add: digits_of_nonempty)
  show ?thesis
    using ne
    by (simp add: signed_integer_def sh span_digits [OF digits_of_all_lt10 assms(2)]
          map_digit_val_comp [OF digits_of_all_lt10] digits_val_digits_of [OF assms(1)]
          Let_def)
qed

lemma number_body_shape:
  assumes I: "list_all (\<lambda>d. d < 10) I" "I \<noteq> []" "length I = 1 \<or> hd I \<noteq> 0"
      and F: "list_all (\<lambda>d. d < 10) F"
      and tail: "tail = [] \<or> (\<not> is_digit (hd tail) \<and> hd tail \<noteq> CHR ''.'')"
  shows "number_body neg (map digit_char I @ (if F = [] then [] else CHR ''.'' # map digit_char F) @ tail)
         = (if tail \<noteq> [] \<and> (hd tail = CHR ''e'' \<or> hd tail = CHR ''E'') then
              (case exponent_part tail of
                 None \<Rightarrow> Malformed
               | Some (e, r3) \<Rightarrow> Parsed (number_value neg (I @ F) (int (length I) + e)) r3)
            else Parsed (number_value neg (I @ F) (int (length I))) tail)"
proof -
  let ?ip = "map digit_char I"
  let ?fp = "map digit_char F"
  obtain x xs where Ix: "I = x # xs" using I(2) by (cases I) auto
  from I(1) Ix have x10: "x < 10" by simp
  have tl_nd: "tail = [] \<or> \<not> is_digit (hd tail)" using tail by auto
  have lead: "\<not> (1 < length ?ip \<and> hd ?ip = CHR ''0'')"
    using I(3) x10 by (auto simp: Ix digit_char_eq_zero)
  have ipne: "?ip \<noteq> []" using I(2) by simp
  have vals: "map digit_val (?ip @ ?fp) = I @ F"
    using I(1) F by (simp add: map_digit_val_comp)
  show ?thesis
  proof (cases "F = []")
    case True
    have dot: "(tail \<noteq> [] \<and> hd tail = CHR ''.'') = False" using tail by auto
    have v: "map digit_val (?ip @ []) = I @ F" using vals True by simp
    have led: "(1 < length ?ip \<and> hd ?ip = CHR ''0'') = False" using lead by simp
    have a: "takeWhile is_digit (?ip @ tail) = ?ip" "dropWhile is_digit (?ip @ tail) = tail"
      using span_digits [OF I(1) tl_nd] by simp_all
    have "number_body neg (?ip @ tail)
           = (if tail \<noteq> [] \<and> (hd tail = CHR ''e'' \<or> hd tail = CHR ''E'') then
              (case exponent_part tail of
                 None \<Rightarrow> Malformed
               | Some (e, r3) \<Rightarrow> Parsed (number_value neg (I @ F) (int (length I) + e)) r3)
            else Parsed (number_value neg (I @ F) (int (length I))) tail)"
      unfolding number_body_def Let_def a dot led if_False v length_map
      using ipne lead by auto
    then show ?thesis using True by simp
  next
    case False
    let ?frac = "CHR ''.'' # ?fp @ tail"
    have fr: "?frac = [] \<or> \<not> is_digit (hd ?frac)" using not_digit_chars by simp
    have fne: "?fp \<noteq> []" using False by simp
    have a: "takeWhile is_digit (?ip @ ?frac) = ?ip" "dropWhile is_digit (?ip @ ?frac) = ?frac"
      using span_digits [OF I(1) fr] by simp_all
    have b: "takeWhile is_digit (?fp @ tail) = ?fp" "dropWhile is_digit (?fp @ tail) = tail"
      using span_digits [OF F tl_nd] by simp_all
    have led: "(1 < length ?ip \<and> hd ?ip = CHR ''0'') = False" using lead by simp
    have dot: "(?frac \<noteq> [] \<and> hd ?frac = CHR ''.'') = True" by simp
    have "number_body neg (?ip @ ?frac)
           = (if tail \<noteq> [] \<and> (hd tail = CHR ''e'' \<or> hd tail = CHR ''E'') then
              (case exponent_part tail of
                 None \<Rightarrow> Malformed
               | Some (e, r3) \<Rightarrow> Parsed (number_value neg (I @ F) (int (length I) + e)) r3)
            else Parsed (number_value neg (I @ F) (int (length I))) tail)"
      unfolding number_body_def Let_def a dot led if_True list.sel b vals length_map
      using ipne fne lead
      by (auto simp: map_digit_val_comp [OF I(1)] map_digit_val_comp [OF F] split: option.splits)
    then show ?thesis using False by simp
  qed
qed

lemma parse_number_shape:
  assumes I: "list_all (\<lambda>d. d < 10) I" "I \<noteq> []" "length I = 1 \<or> hd I \<noteq> 0"
      and F: "list_all (\<lambda>d. d < 10) F"
      and tail: "tail = [] \<or> (\<not> is_digit (hd tail) \<and> hd tail \<noteq> CHR ''.'')"
  shows "parse_number ((if neg then ''-'' else []) @ map digit_char I
                        @ (if F = [] then [] else CHR ''.'' # map digit_char F) @ tail)
         = (if tail \<noteq> [] \<and> (hd tail = CHR ''e'' \<or> hd tail = CHR ''E'') then
              (case exponent_part tail of
                 None \<Rightarrow> Malformed
               | Some (e, r3) \<Rightarrow> Parsed (number_value neg (I @ F) (int (length I) + e)) r3)
            else Parsed (number_value neg (I @ F) (int (length I))) tail)"
proof -
  obtain x xs where Ix: "I = x # xs" using I(2) by (cases I) auto
  from I(1) Ix have "is_digit (digit_char x)" by (simp add: is_digit_digit_char)
  then have nm: "digit_char x \<noteq> CHR ''-''" using not_digit_chars by auto
  show ?thesis
  proof (cases neg)
    case True
    show ?thesis
      using number_body_shape [OF assms, of neg] by (simp add: parse_number_def True)
  next
    case False
    show ?thesis
      using number_body_shape [OF assms, of neg] nm by (simp add: parse_number_def Ix False)
  qed
qed

lemma map_digit_char_zeros: "replicate j (CHR ''0'') = map digit_char (replicate j 0)"
  by (simp add: digit_char_0)

lemma parse_number_plain:
  assumes I: "list_all (\<lambda>d. d < 10) I" "I \<noteq> []" "length I = 1 \<or> hd I \<noteq> 0"
      and F: "list_all (\<lambda>d. d < 10) F"
      and rest: "rest = [] \<or> (\<not> is_digit (hd rest) \<and> hd rest \<notin> {CHR ''.'', CHR ''e'', CHR ''E''})"
      and shp: "body = map digit_char I @ (if F = [] then [] else CHR ''.'' # map digit_char F)"
      and v: "number_value neg (I @ F) (int (length I)) = N"
  shows "parse_number ((if neg then ''-'' else []) @ body @ rest) = Parsed N rest"
proof -
  have tailr: "rest = [] \<or> (\<not> is_digit (hd rest) \<and> hd rest \<noteq> CHR ''.'')"
    and noexp: "(rest \<noteq> [] \<and> (hd rest = CHR ''e'' \<or> hd rest = CHR ''E'')) = False"
    using rest by auto
  show ?thesis
    using parse_number_shape [OF I F tailr, of neg]
    unfolding noexp if_False v shp append_assoc .
qed

lemma parse_number_exponent:
  assumes I: "list_all (\<lambda>d. d < 10) I" "I \<noteq> []" "length I = 1 \<or> hd I \<noteq> 0"
      and F: "list_all (\<lambda>d. d < 10) F"
      and rest: "rest = [] \<or> \<not> is_digit (hd rest)"
      and m: "0 \<le> m"
      and shp: "body = map digit_char I @ (if F = [] then [] else CHR ''.'' # map digit_char F)
                  @ CHR ''e'' # (if e_neg then CHR ''-'' else CHR ''+'') # show_int m"
      and v: "number_value neg (I @ F) (int (length I) + (if e_neg then - m else m)) = N"
  shows "parse_number ((if neg then ''-'' else []) @ body @ rest) = Parsed N rest"
proof -
  let ?tail = "CHR ''e'' # (if e_neg then CHR ''-'' else CHR ''+'') # show_int m @ rest"
  have tl: "?tail = [] \<or> (\<not> is_digit (hd ?tail) \<and> hd ?tail \<noteq> CHR ''.'')"
    using not_digit_chars by simp
  have isexp: "(?tail \<noteq> [] \<and> (hd ?tail = CHR ''e'' \<or> hd ?tail = CHR ''E'')) = True" by simp
  have ex: "exponent_part ?tail = Some (if e_neg then - m else m, rest)"
    using signed_integer_shown [OF m rest, of e_neg] by (simp add: exponent_part_def)
  have b: "body @ rest = map digit_char I @ (if F = [] then [] else CHR ''.'' # map digit_char F) @ ?tail"
    by (simp add: shp)
  show ?thesis
    using parse_number_shape [OF I F tl, of neg]
    unfolding isexp if_True ex option.case prod.case v b .
qed

lemma decimal_text_A:
  assumes c: "canonical ds" and o: "\<not> overflows ds n" and u: "\<not> underflows ds n"
      and rest: "rest = [] \<or> (\<not> is_digit (hd rest) \<and> hd rest \<notin> {CHR ''.'', CHR ''e'', CHR ''E''})"
      and A: "int (length ds) \<le> n" "n \<le> 21"
  shows "parse_number ((if neg then ''-'' else []) @ decimal_text ds n @ rest)
           = Parsed (Decimal neg ds n) rest"
proof -
  from c have ne: "ds \<noteq> []" and h: "hd ds \<noteq> 0" and lt: "list_all (\<lambda>d. d < 10) ds"
    by (auto simp: canonical_def)
  let ?j = "nat (n - int (length ds))"
  let ?I = "ds @ replicate ?j 0"
  have shp: "decimal_text ds n = map digit_char ?I @ (if ([]::nat list) = [] then [] else CHR ''.'' # map digit_char [])"
    using A by (simp add: decimal_text_def Let_def map_digit_char_zeros)
  have I: "list_all (\<lambda>d. d < 10) ?I" "?I \<noteq> []" "length ?I = 1 \<or> hd ?I \<noteq> 0"
    using lt ne h by (auto simp: list_all_iff)
  have F: "list_all (\<lambda>d. d < 10) ([]::nat list)" by simp
  have len: "int (length ?I) = n" using A by simp
  have v: "number_value neg (?I @ []) (int (length ?I)) = Decimal neg ds n"
    unfolding len using number_value_padded [OF c o u, of n 0 neg ?j] by simp
  show ?thesis by (rule parse_number_plain [OF I F rest shp v])
qed

lemma decimal_text_B:
  assumes c: "canonical ds" and o: "\<not> overflows ds n" and u: "\<not> underflows ds n"
      and rest: "rest = [] \<or> (\<not> is_digit (hd rest) \<and> hd rest \<notin> {CHR ''.'', CHR ''e'', CHR ''E''})"
      and B: "0 < n" "n < int (length ds)" "n \<le> 21"
  shows "parse_number ((if neg then ''-'' else []) @ decimal_text ds n @ rest)
           = Parsed (Decimal neg ds n) rest"
proof -
  from c have ne: "ds \<noteq> []" and h: "hd ds \<noteq> 0" and lt: "list_all (\<lambda>d. d < 10) ds"
    by (auto simp: canonical_def)
  let ?I = "take (nat n) ds" and ?F = "drop (nat n) ds"
  have Fne: "?F \<noteq> []" using B by simp
  have shp: "decimal_text ds n = map digit_char ?I @ (if ?F = [] then [] else CHR ''.'' # map digit_char ?F)"
    using B Fne by (simp add: decimal_text_def Let_def take_map drop_map)
  have I: "list_all (\<lambda>d. d < 10) ?I" "?I \<noteq> []" "length ?I = 1 \<or> hd ?I \<noteq> 0"
    using lt ne h B by (auto simp: list_all_iff dest: in_set_takeD)
  have F: "list_all (\<lambda>d. d < 10) ?F"
    using lt by (auto simp: list_all_iff dest: in_set_dropD)
  have len: "int (length ?I) = n" using B by simp
  have v: "number_value neg (?I @ ?F) (int (length ?I)) = Decimal neg ds n"
    unfolding len using number_value_padded [OF c o u, of n 0 neg 0] by simp
  show ?thesis by (rule parse_number_plain [OF I F rest shp v])
qed

lemma decimal_text_C:
  assumes c: "canonical ds" and o: "\<not> overflows ds n" and u: "\<not> underflows ds n"
      and rest: "rest = [] \<or> (\<not> is_digit (hd rest) \<and> hd rest \<notin> {CHR ''.'', CHR ''e'', CHR ''E''})"
      and C: "- 6 < n" "n \<le> 0"
  shows "parse_number ((if neg then ''-'' else []) @ decimal_text ds n @ rest)
           = Parsed (Decimal neg ds n) rest"
proof -
  from c have ne: "ds \<noteq> []" and h: "hd ds \<noteq> 0" and lt: "list_all (\<lambda>d. d < 10) ds"
    by (auto simp: canonical_def)
  let ?j = "nat (- n)"
  let ?F = "replicate ?j 0 @ ds"
  have Fne: "?F \<noteq> []" using ne by simp
  have kpos: "\<not> int (length ds) \<le> n" using ne C by (cases ds) auto
  have shp: "decimal_text ds n = map digit_char [0] @ (if ?F = [] then [] else CHR ''.'' # map digit_char ?F)"
    using C Fne kpos by (simp add: decimal_text_def Let_def digit_char_0)
  have I: "list_all (\<lambda>d. d < 10) [0::nat]" "[0::nat] \<noteq> []" "length [0::nat] = 1 \<or> hd [0::nat] \<noteq> 0"
    by simp_all
  have F: "list_all (\<lambda>d. d < 10) ?F" using lt by (auto simp: list_all_iff)
  have v: "number_value neg ([0] @ ?F) (int (length [0::nat])) = Decimal neg ds n"
    using number_value_padded [OF c o u, of 1 "Suc ?j" neg 0] C by simp
  show ?thesis by (rule parse_number_plain [OF I F rest shp v])
qed

lemma decimal_text_D:
  assumes c: "canonical ds" and o: "\<not> overflows ds n" and u: "\<not> underflows ds n"
      and rest: "rest = [] \<or> (\<not> is_digit (hd rest) \<and> hd rest \<notin> {CHR ''.'', CHR ''e'', CHR ''E''})"
      and D: "n \<le> - 6 \<or> 21 < n"
  shows "parse_number ((if neg then ''-'' else []) @ decimal_text ds n @ rest)
           = Parsed (Decimal neg ds n) rest"
proof -
  from c have ne: "ds \<noteq> []" and h: "hd ds \<noteq> 0" and lt: "list_all (\<lambda>d. d < 10) ds"
    by (auto simp: canonical_def)
  have restd: "rest = [] \<or> \<not> is_digit (hd rest)"
    using rest by auto
  let ?m = "\<bar>n - 1\<bar>"
  let ?I = "[hd ds]" and ?F = "tl ds"
  have sn: "show_nat (nat ?m) = show_int ?m" by (simp add: show_nat_def)
  have shp: "decimal_text ds n
               = map digit_char ?I @ (if ?F = [] then [] else CHR ''.'' # map digit_char ?F)
                 @ CHR ''e'' # (if n - 1 < 0 then CHR ''-'' else CHR ''+'') # show_int ?m"
    using D ne by (cases ds) (auto simp: decimal_text_def Let_def sn)
  have I: "list_all (\<lambda>d. d < 10) ?I" "?I \<noteq> []" "length ?I = 1 \<or> hd ?I \<noteq> 0"
    using lt ne by (cases ds; simp)+
  have F: "list_all (\<lambda>d. d < 10) ?F" using lt ne by (cases ds) simp_all
  have m: "0 \<le> ?m" by simp
  have e: "int (length ?I) + (if n - 1 < 0 then - ?m else ?m) = n" by simp
  have v: "number_value neg (?I @ ?F) (int (length ?I) + (if n - 1 < 0 then - ?m else ?m))
             = Decimal neg ds n"
    unfolding e using number_value_padded [OF c o u, of n 0 neg 0] ne by simp
  show ?thesis by (rule parse_number_exponent [OF I F restd m shp v])
qed

lemma parse_number_decimal_text:
  assumes c: "canonical ds" and o: "\<not> overflows ds n" and u: "\<not> underflows ds n"
      and rest: "rest = [] \<or> (\<not> is_digit (hd rest) \<and> hd rest \<notin> {CHR ''.'', CHR ''e'', CHR ''E''})"
  shows "parse_number ((if neg then ''-'' else []) @ decimal_text ds n @ rest)
           = Parsed (Decimal neg ds n) rest"
proof -
  consider (A) "int (length ds) \<le> n" "n \<le> 21"
    | (B) "0 < n" "n < int (length ds)" "n \<le> 21"
    | (C) "- 6 < n" "n \<le> 0"
    | (D) "n \<le> - 6 \<or> 21 < n"
    by linarith
  then show ?thesis
  proof cases
    case A
    then show ?thesis by (rule decimal_text_A [OF assms])
  next
    case B
    then show ?thesis by (rule decimal_text_B [OF assms])
  next
    case C
    then show ?thesis by (rule decimal_text_C [OF assms])
  next
    case D
    then show ?thesis by (rule decimal_text_D [OF assms])
  qed
qed

lemma parse_number_zero:
  assumes "rest = [] \<or> (\<not> is_digit (hd rest) \<and> hd rest \<notin> {CHR ''.'', CHR ''e'', CHR ''E''})"
  shows "parse_number (''0'' @ rest) = Parsed Zero rest"
proof -
  have I: "list_all (\<lambda>d. d < 10) [0::nat]" "[0::nat] \<noteq> []" "length [0::nat] = 1 \<or> hd [0::nat] \<noteq> 0"
    by simp_all
  have F: "list_all (\<lambda>d. d < 10) ([]::nat list)" by simp
  have tl: "rest = [] \<or> (\<not> is_digit (hd rest) \<and> hd rest \<noteq> CHR ''.'')" using assms by auto
  have v: "number_value False [0] 1 = Zero" by (simp add: number_value_def strip_zeros_def)
  show ?thesis
    using parse_number_shape [OF I F tl, of False] assms v
    by (auto simp: digit_char_0)
qed

lemma parse_number_stringify:
  assumes "finite_number n"
      and "rest = [] \<or> (\<not> is_digit (hd rest) \<and> hd rest \<notin> {CHR ''.'', CHR ''e'', CHR ''E''})"
  shows "parse_number (stringify (VNum n) @ rest) = Parsed n rest"
proof (cases n)
  case Zero
  then show ?thesis using parse_number_zero [OF assms(2)] by simp
next
  case (Decimal neg ds p)
  with assms(1) have "canonical ds" "\<not> overflows ds p" "\<not> underflows ds p" by simp_all
  from parse_number_decimal_text [OF this assms(2), of neg] show ?thesis
    by (cases neg) (simp_all add: Decimal)
qed (use assms(1) in simp_all)

section \<open>Values through \<open>JSON.stringify\<close> and \<open>JSON.parse\<close>\<close>

text \<open>
  If the parser does not run out of fuel on the text of a storable value, it returns that
  value and leaves what follows the text.
\<close>

lemma follows_number:
  "follows rest \<Longrightarrow> rest = [] \<or> (\<not> is_digit (hd rest) \<and> hd rest \<notin> {CHR ''.'', CHR ''e'', CHR ''E''})"
  by (auto simp: follows_def is_digit_def)

lemma skip_ws_start: "xs \<noteq> [] \<Longrightarrow> \<not> is_json_ws (hd xs) \<Longrightarrow> skip_ws (xs @ ys) = xs @ ys"
  by (cases xs) (simp_all add: skip_ws_def)

lemma skip_ws_Cons: "\<not> is_json_ws c \<Longrightarrow> skip_ws (c # cs) = c # cs"
  by (simp add: skip_ws_def)

lemma hd_decimal_text:
  assumes "canonical ds"
  shows "decimal_text ds n \<noteq> [] \<and> is_digit (hd (decimal_text ds n))"
proof -
  from assms obtain x xs where ds: "ds = x # xs" and x: "x < 10"
    by (cases ds) (auto simp: canonical_def)
  have d: "is_digit (digit_char x)" using x by (rule is_digit_digit_char)
  have z: "is_digit (CHR ''0'')" by (simp add: is_digit_def)
  show ?thesis
    using d z by (auto simp: decimal_text_def Let_def ds take_Cons' nat_le_iff)
qed

lemma stringify_start:
  assumes "storable v"
  shows "stringify v \<noteq> [] \<and> starts_value (hd (stringify v))"
proof (cases v)
  case (VNum n)
  with assms show ?thesis
    using hd_decimal_text
    by (cases n) (auto simp: starts_value_def is_digit_def)
qed (use assms in \<open>auto simp: starts_value_def quote_def\<close>)

lemma starts_value_not:
  "starts_value c \<Longrightarrow> \<not> is_json_ws c \<and> c \<noteq> CHR '']'' \<and> c \<noteq> CHR ''}'' \<and> c \<noteq> CHR '','' \<and> c \<noteq> CHR '':''"
  by (auto simp: starts_value_def is_json_ws_def is_digit_def)

lemma stringify_num_start:
  assumes "finite_number n"
  shows "\<exists>c cs. stringify (VNum n) = c # cs \<and> (is_digit c \<or> c = CHR ''-'')"
proof (cases n)
  case Zero
  then show ?thesis by (simp add: is_digit_def)
next
  case (Decimal neg ds p)
  with assms have "canonical ds" by simp
  from hd_decimal_text [OF this, of p] obtain c cs where
    "decimal_text ds p = c # cs" "is_digit c"
    by (cases "decimal_text ds p") auto
  then show ?thesis by (cases neg) (simp_all add: Decimal)
qed (use assms in simp_all)

lemma parse_value_number:
  assumes "finite_number n" "follows rest"
  shows "parse_value (Suc f) (stringify (VNum n) @ rest) = Parsed (VNum n) rest"
proof -
  from stringify_num_start [OF assms(1)] obtain c cs where
    s: "stringify (VNum n) = c # cs" and c: "is_digit c \<or> c = CHR ''-''"
    by blast
  have c1: "c \<noteq> CHR 0x22" "c \<noteq> CHR ''[''" "c \<noteq> CHR ''{''" "c \<noteq> CHR ''t''" "c \<noteq> CHR ''f''"
    "c \<noteq> CHR ''n''"
    using c by (auto simp: is_digit_def)
  have "parse_value (Suc f) (c # cs @ rest) = map_parsed VNum (parse_number (c # cs @ rest))"
    using c1 by simp
  also have "\<dots> = Parsed (VNum n) rest"
    using parse_number_stringify [OF assms(1) follows_number [OF assms(2)]]
    unfolding s by simp
  finally show ?thesis unfolding s by simp
qed

lemma parse_value_string: "parse_value (Suc f) (stringify (VStr s) @ rest) = Parsed (VStr s) rest"
  using parse_chars_quote [of s rest] by (simp add: quote_def)

lemma update_fresh: "k \<notin> fst ` set acc \<Longrightarrow> AList.update k v acc = acc @ [(k, v)]"
  by (induction acc) auto

lemma join_Cons: "join sep (x # xs) = x @ (if xs = [] then [] else sep @ join sep xs)"
  by (cases xs) simp_all

lemma parse_elements_join:
  assumes IH: "\<And>x f rest. x \<in> set xs \<Longrightarrow> follows rest \<Longrightarrow>
                 parse_value f (stringify x @ rest) \<noteq> NoFuel \<Longrightarrow>
                 parse_value f (stringify x @ rest) = Parsed x rest"
      and st: "list_all storable xs" "xs \<noteq> []"
      and nf: "parse_elements f (join '','' (map stringify xs) @ CHR '']'' # rest) \<noteq> NoFuel"
  shows "parse_elements f (join '','' (map stringify xs) @ CHR '']'' # rest) = Parsed xs rest"
  using assms
proof (induction xs arbitrary: f)
  case Nil
  then show ?case by simp
next
  case (Cons x xs)
  obtain g where f: "f = Suc g" using Cons.prems(4) by (cases f) auto
  let ?R = "(if xs = [] then [] else '','' @ join '','' (map stringify xs)) @ CHR '']'' # rest"
  have cs: "join '','' (map stringify (x # xs)) @ CHR '']'' # rest = stringify x @ ?R"
    by (simp add: join_Cons)
  have fo: "follows ?R" by (simp add: follows_def)
  have pv_nf: "parse_value g (stringify x @ ?R) \<noteq> NoFuel"
    using Cons.prems(4) unfolding cs f by (auto split: parsed.splits)
  have pv: "parse_value g (stringify x @ ?R) = Parsed x ?R"
    using Cons.prems(1) [OF _ fo pv_nf] by simp
  show ?case
  proof (cases "xs = []")
    case True
    have ws: "\<not> is_json_ws (CHR '']'')" by (simp add: is_json_ws_def)
    show ?thesis
      unfolding cs f using pv True by (simp add: skip_ws_Cons [OF ws])
  next
    case False
    let ?T = "join '','' (map stringify xs) @ CHR '']'' # rest"
    have R: "?R = CHR '','' # ?T" using False by simp
    have ws: "\<not> is_json_ws (CHR '','')" by (simp add: is_json_ws_def)
    obtain y ys where xs: "xs = y # ys" using False by (cases xs) auto
    have sty: "storable y" using Cons.prems(2) xs by simp
    have jn: "join '','' (map stringify xs) \<noteq> [] \<and> \<not> is_json_ws (hd (join '','' (map stringify xs)))"
      using stringify_start [OF sty] starts_value_not by (auto simp: xs join_Cons)
    have sk: "skip_ws ?T = ?T" using jn skip_ws_start by blast
    have step: "parse_elements (Suc g) (stringify x @ ?R) = map_parsed ((#) x) (parse_elements g ?T)"
      using pv by (simp add: R skip_ws_Cons [OF ws] sk)
    have nf': "parse_elements g ?T \<noteq> NoFuel"
      using Cons.prems(4) unfolding cs f step by (cases "parse_elements g ?T") auto
    have "parse_elements g ?T = Parsed xs rest"
      using Cons.IH [OF _ _ False nf'] Cons.prems(1,2) by simp
    then show ?thesis unfolding cs f step by simp
  qed
qed

lemma quote_Cons: "quote k = CHR 0x22 # tl (quote k)"
  by (simp add: quote_def)

lemma parse_members_join:
  assumes IH: "\<And>p f rest. p \<in> set fs \<Longrightarrow> follows rest \<Longrightarrow>
                 parse_value f (stringify (snd p) @ rest) \<noteq> NoFuel \<Longrightarrow>
                 parse_value f (stringify (snd p) @ rest) = Parsed (snd p) rest"
      and st: "list_all (\<lambda>p. storable (snd p)) fs" "fs \<noteq> []" "distinct (map fst fs)"
              "fst ` set fs \<inter> fst ` set acc = {}"
      and nf: "parse_members f acc
                 (join '','' (map (\<lambda>p. quote (fst p) @ '':'' @ stringify (snd p)) fs) @ CHR ''}'' # rest)
               \<noteq> NoFuel"
  shows "parse_members f acc
           (join '','' (map (\<lambda>p. quote (fst p) @ '':'' @ stringify (snd p)) fs) @ CHR ''}'' # rest)
         = Parsed (acc @ fs) rest"
  using assms
proof (induction fs arbitrary: f acc)
  case Nil
  then show ?case by simp
next
  case (Cons p fs)
  obtain k v where p: "p = (k, v)" by (cases p)
  obtain g where f: "f = Suc g" using Cons.prems(6) by (cases f) auto
  let ?mem = "\<lambda>p. quote (fst p) @ '':'' @ stringify (snd p)"
  let ?R = "(if fs = [] then [] else '','' @ join '','' (map ?mem fs)) @ CHR ''}'' # rest"
  let ?V = "stringify v @ ?R"
  have cs: "join '','' (map ?mem (p # fs)) @ CHR ''}'' # rest
              = CHR 0x22 # (tl (quote k) @ (CHR '':'' # ?V))"
    by (simp add: join_Cons p quote_def)
  have stv: "storable v" using Cons.prems(2) p by simp
  have fo: "follows ?R" by (simp add: follows_def)
  have colon: "\<not> is_json_ws (CHR '':'')" by (simp add: is_json_ws_def)
  have skV: "skip_ws ?V = ?V"
    by (rule skip_ws_start) (use stringify_start [OF stv] starts_value_not in auto)
  have fresh: "k \<notin> fst ` set acc" using Cons.prems(5) p by auto
  have upd: "AList.update k v acc = acc @ [(k, v)]" by (rule update_fresh [OF fresh])
  have head: "parse_members (Suc g) acc (CHR 0x22 # (tl (quote k) @ (CHR '':'' # ?V)))
                = (case parse_value g ?V of
                     Parsed v' r2 \<Rightarrow>
                       (if skip_ws r2 \<noteq> [] \<and> hd (skip_ws r2) = CHR '','' then
                          parse_members g (AList.update k v' acc) (skip_ws (tl (skip_ws r2)))
                        else if skip_ws r2 \<noteq> [] \<and> hd (skip_ws r2) = CHR ''}'' then
                          Parsed (AList.update k v' acc) (tl (skip_ws r2))
                        else Malformed)
                   | Malformed \<Rightarrow> Malformed
                   | Outside \<Rightarrow> Outside
                   | NoFuel \<Rightarrow> NoFuel)"
    using skV by (simp add: parse_chars_quote skip_ws_Cons [OF colon])
  have pv_nf: "parse_value g ?V \<noteq> NoFuel"
    using Cons.prems(6) unfolding cs f head by (auto split: parsed.splits)
  have pv_nf': "parse_value g (stringify (snd p) @ ?R) \<noteq> NoFuel"
    using pv_nf by (simp add: p)
  have pv: "parse_value g ?V = Parsed v ?R"
    using Cons.prems(1) [OF _ fo pv_nf'] by (simp add: p)
  show ?case
  proof (cases "fs = []")
    case True
    have ws: "\<not> is_json_ws (CHR ''}'')" by (simp add: is_json_ws_def)
    show ?thesis
      unfolding cs f head pv using True by (simp add: skip_ws_Cons [OF ws] upd p)
  next
    case False
    let ?T = "join '','' (map ?mem fs) @ CHR ''}'' # rest"
    have R: "?R = CHR '','' # ?T" using False by simp
    have ws: "\<not> is_json_ws (CHR '','')" by (simp add: is_json_ws_def)
    obtain q qs where fs: "fs = q # qs" using False by (cases fs) auto
    have qq: "\<not> is_json_ws (CHR 0x22)" by (simp add: is_json_ws_def)
    have jn: "join '','' (map ?mem fs) \<noteq> [] \<and> hd (join '','' (map ?mem fs)) = CHR 0x22"
      by (simp add: fs join_Cons quote_def)
    have sk: "skip_ws ?T = ?T" by (rule skip_ws_start) (use jn qq in auto)
    have step: "parse_members (Suc g) acc (CHR 0x22 # (tl (quote k) @ (CHR '':'' # ?V)))
                  = parse_members g (acc @ [(k, v)]) ?T"
      unfolding head pv using sk by (simp add: R skip_ws_Cons [OF ws] upd)
    have nf': "parse_members g (acc @ [(k, v)]) ?T \<noteq> NoFuel"
      using Cons.prems(6) unfolding cs f step .
    have dis: "fst ` set fs \<inter> fst ` set (acc @ [(k, v)]) = {}"
      using Cons.prems(4,5) p by auto
    have "parse_members g (acc @ [(k, v)]) ?T = Parsed ((acc @ [(k, v)]) @ fs) rest"
      using Cons.IH [OF _ _ False _ dis nf'] Cons.prems(1,2,4) by simp
    then show ?thesis unfolding cs f step by (simp add: p)
  qed
qed

lemma storable_defined: "storable v \<Longrightarrow> v \<noteq> VUndefined"
  by auto

lemma parse_value_stringify:
  assumes "storable v" "follows rest" "parse_value f (stringify v @ rest) \<noteq> NoFuel"
  shows "parse_value f (stringify v @ rest) = Parsed v rest"
  using assms
proof (induction v arbitrary: f rest)
  case VUndefined
  then show ?case by simp
next
  case VNull
  then obtain g where "f = Suc g" by (cases f) auto
  then show ?case by simp
next
  case (VBool b)
  then obtain g where "f = Suc g" by (cases f) auto
  then show ?case by (cases b) simp_all
next
  case (VNum n)
  then obtain g where "f = Suc g" by (cases f) auto
  with VNum show ?case using parse_value_number by simp
next
  case (VStr s)
  then obtain g where "f = Suc g" by (cases f) auto
  then show ?case using parse_value_string by simp
next
  case (VArr xs)
  obtain g where f: "f = Suc g" using VArr.prems(3) by (cases f) auto
  have br: "\<not> is_json_ws (CHR '']'')" by (simp add: is_json_ws_def)
  show ?case
  proof (cases "xs = []")
    case True
    then show ?thesis by (simp add: f skip_ws_Cons [OF br])
  next
    case False
    let ?T = "join '','' (map stringify xs) @ CHR '']'' # rest"
    obtain y ys where xs: "xs = y # ys" using False by (cases xs) auto
    have sty: "storable y" using VArr.prems(1) xs by simp
    have jn: "join '','' (map stringify xs) \<noteq> [] \<and> starts_value (hd (join '','' (map stringify xs)))"
      using stringify_start [OF sty] by (auto simp: xs join_Cons)
    have sk: "skip_ws ?T = ?T" by (rule skip_ws_start) (use jn starts_value_not in auto)
    have hdT: "?T \<noteq> [] \<and> hd ?T \<noteq> CHR '']''" using jn starts_value_not by auto
    have step: "parse_value (Suc g) (stringify (VArr xs) @ rest) = map_parsed VArr (parse_elements g ?T)"
      using hdT sk by simp
    have nf: "parse_elements g ?T \<noteq> NoFuel"
      using VArr.prems(3) unfolding f step by (cases "parse_elements g ?T") auto
    have "parse_elements g ?T = Parsed xs rest"
      using parse_elements_join [OF _ _ False nf] VArr.IH VArr.prems(1)
      by (simp add: list_all_iff)
    then show ?thesis unfolding f step by simp
  qed
next
  case (VObj fs)
  obtain g where f: "f = Suc g" using VObj.prems(3) by (cases f) auto
  have br: "\<not> is_json_ws (CHR ''}'')" by (simp add: is_json_ws_def)
  have flt: "filter (\<lambda>p. snd p \<noteq> VUndefined) fs = fs"
    using VObj.prems(1) by (auto simp: list_all_iff filter_id_conv dest: storable_defined)
  let ?mem = "\<lambda>p. quote (fst p) @ '':'' @ stringify (snd p)"
  show ?case
  proof (cases "fs = []")
    case True
    then show ?thesis by (simp add: f skip_ws_Cons [OF br])
  next
    case False
    let ?T = "join '','' (map ?mem fs) @ CHR ''}'' # rest"
    obtain q qs where fs: "fs = q # qs" using False by (cases fs) auto
    have qq: "\<not> is_json_ws (CHR 0x22)" by (simp add: is_json_ws_def)
    have jn: "join '','' (map ?mem fs) \<noteq> [] \<and> hd (join '','' (map ?mem fs)) = CHR 0x22"
      by (simp add: fs join_Cons quote_def)
    have sk: "skip_ws ?T = ?T" by (rule skip_ws_start) (use jn qq in auto)
    have hdT: "?T \<noteq> [] \<and> hd ?T \<noteq> CHR ''}''" using jn by simp
    have step: "parse_value (Suc g) (stringify (VObj fs) @ rest) = map_parsed VObj (parse_members g [] ?T)"
      using hdT sk by (simp add: flt)
    have nf: "parse_members g [] ?T \<noteq> NoFuel"
      using VObj.prems(3) unfolding f step by (cases "parse_members g [] ?T") auto
    have IH': "\<And>p f rest. p \<in> set fs \<Longrightarrow> follows rest \<Longrightarrow>
                 parse_value f (stringify (snd p) @ rest) \<noteq> NoFuel \<Longrightarrow>
                 parse_value f (stringify (snd p) @ rest) = Parsed (snd p) rest"
      using VObj.IH VObj.prems(1) by (auto simp: list_all_iff snds.simps)
    have "parse_members g [] ?T = Parsed ([] @ fs) rest"
      using parse_members_join [OF IH' _ False _ _ nf] VObj.prems(1) by simp
    then show ?thesis unfolding f step by simp
  qed
qed

section \<open>The fuel of the parser\<close>

text \<open>
  The string and number scanners need no fuel and consume what they accept; the three
  mutually recursive parsers never run out of the fuel \<open>JSON_parse\<close> gives them.
\<close>

lemma map_parsed_NoFuel [simp]: "(map_parsed g x = NoFuel) = (x = NoFuel)"
  by (cases x) simp_all

lemma map_parsed_rest: "map_parsed g x = Parsed v r \<Longrightarrow> \<exists>w. x = Parsed w r"
  by (cases x) simp_all

lemma length_skip_ws: "length (skip_ws cs) \<le> length cs"
  by (simp add: skip_ws_def length_dropWhile_le)

lemma parse_chars_fuel: "parse_chars cs \<noteq> NoFuel"
  by (induction cs rule: parse_chars.induct) (auto split: list.splits option.splits)

lemma parse_chars_shorter: "parse_chars cs = Parsed s r \<Longrightarrow> length r < length cs"
proof (induction cs arbitrary: s rule: parse_chars.induct)
  case 1
  then show ?case by simp
next
  case (2 c cs)
  show ?case
  proof (cases "c = CHR 0x22")
    case True
    with "2.prems" show ?thesis by simp
  next
    case nq: False
    show ?thesis
    proof (cases "c = CHR 0x5C")
      case True
      then show ?thesis
        using "2.prems" "2.IH"(1,2) nq
        by (auto split: list.splits option.splits if_splits dest!: map_parsed_rest)
           fastforce+
    next
      case False
      then show ?thesis
        using "2.prems" "2.IH"(3) nq
        by (auto split: if_splits dest!: map_parsed_rest)
    qed
  qed
qed

lemma length_dropWhile_tl: "length (dropWhile P (tl cs)) \<le> length cs"
  using length_dropWhile_le [of P "tl cs"] by simp

lemma signed_integer_shorter: "signed_integer cs = Some (e, r) \<Longrightarrow> length r \<le> length cs"
  by (auto simp: signed_integer_def Let_def length_dropWhile_le length_dropWhile_tl split: if_splits)

lemma exponent_part_shorter: "exponent_part cs = Some (e, r) \<Longrightarrow> length r \<le> length cs"
  by (auto simp: exponent_part_def split: if_splits dest!: signed_integer_shorter)

lemma number_body_fuel: "number_body neg cs \<noteq> NoFuel"
  by (auto simp: number_body_def Let_def split: option.splits)

lemma parse_number_fuel: "parse_number cs \<noteq> NoFuel"
  by (simp add: parse_number_def number_body_fuel)

lemma takeWhile_dropWhile_shorter:
  "takeWhile P cs \<noteq> [] \<Longrightarrow> length (dropWhile P cs) < length cs"
  by (cases cs) (auto simp: less_Suc_eq_le length_dropWhile_le split: if_splits)

lemma number_body_shorter:
  assumes "number_body neg cs = Parsed n r"
  shows "length r < length cs"
proof -
  let ?r1 = "dropWhile is_digit cs"
  let ?dot = "?r1 \<noteq> [] \<and> hd ?r1 = CHR ''.''"
  let ?r2 = "if ?dot then dropWhile is_digit (tl ?r1) else ?r1"
  from assms have ip: "takeWhile is_digit cs \<noteq> []"
    by (auto simp: number_body_def Let_def split: if_splits)
  then have a: "length ?r1 < length cs" by (rule takeWhile_dropWhile_shorter)
  have b: "length ?r2 \<le> length ?r1" by (simp add: length_dropWhile_tl)
  from assms have "r = ?r2 \<or> (\<exists>e. exponent_part ?r2 = Some (e, r))"
    by (auto simp: number_body_def Let_def split: if_splits option.splits)
  then have "length r \<le> length ?r2"
  proof
    assume "r = ?r2"
    then show ?thesis by simp
  next
    assume "\<exists>e. exponent_part ?r2 = Some (e, r)"
    then obtain e where "exponent_part ?r2 = Some (e, r)" ..
    then show ?thesis by (rule exponent_part_shorter)
  qed
  with a b show ?thesis by linarith
qed

lemma parse_number_shorter: "parse_number cs = Parsed n r \<Longrightarrow> length r < length cs"
  by (auto simp: parse_number_def split: if_splits dest!: number_body_shorter)

lemma skip_tl_shorter: "cs \<noteq> [] \<Longrightarrow> length (skip_ws (tl cs)) < length cs"
  using length_skip_ws [of "tl cs"] by (cases cs) simp_all

lemma tl_skip_shorter: "skip_ws cs \<noteq> [] \<Longrightarrow> length (tl (skip_ws cs)) < length cs"
  using length_skip_ws [of cs] by (cases "skip_ws cs") simp_all

lemma skip_tl_skip_shorter: "skip_ws cs \<noteq> [] \<Longrightarrow> length (skip_ws (tl (skip_ws cs))) < length cs"
  using skip_tl_shorter [of "skip_ws cs"] length_skip_ws [of cs] by simp

lemma take_literal: "take n cs = lit \<Longrightarrow> lit \<noteq> [] \<Longrightarrow> length (drop n cs) < length cs"
  by (cases cs) (auto simp: take_Cons' split: if_splits)

lemma fuel_okD:
  assumes "fuel_ok f"
  shows "\<And>cs. 2 * length cs < f \<Longrightarrow> parse_value f cs \<noteq> NoFuel"
    and "\<And>cs v r. parse_value f cs = Parsed v r \<Longrightarrow> length r < length cs"
    and "\<And>cs. 2 * length cs + 1 < f \<Longrightarrow> parse_elements f cs \<noteq> NoFuel"
    and "\<And>cs v r. parse_elements f cs = Parsed v r \<Longrightarrow> length r < length cs"
    and "\<And>acc cs. 2 * length cs + 1 < f \<Longrightarrow> parse_members f acc cs \<noteq> NoFuel"
    and "\<And>acc cs v r. parse_members f acc cs = Parsed v r \<Longrightarrow> length r < length cs"
  using assms unfolding fuel_ok_def by blast+

lemma value_step:
  assumes ok: "fuel_ok f"
  shows "2 * length cs < Suc f \<Longrightarrow> parse_value (Suc f) cs \<noteq> NoFuel"
    and "parse_value (Suc f) cs = Parsed v r \<Longrightarrow> length r < length cs"
proof -
  note E = fuel_okD(3) [OF ok] and El = fuel_okD(4) [OF ok]
    and M = fuel_okD(5) [OF ok] and Ml = fuel_okD(6) [OF ok]
  show "parse_value (Suc f) cs \<noteq> NoFuel" if b: "2 * length cs < Suc f"
  proof (cases "cs = []")
    case True
    then show ?thesis by simp
  next
    case False
    have "2 * length (skip_ws (tl cs)) + 1 < f"
      using skip_tl_shorter [OF False] b by linarith
    then show ?thesis
      using E M False by (simp add: parse_chars_fuel parse_number_fuel)
  qed
  show "length r < length cs" if p: "parse_value (Suc f) cs = Parsed v r"
  proof (cases "cs = []")
    case True
    with p show ?thesis by simp
  next
    case False
    note sk = skip_tl_shorter [OF False]
    consider (str) "hd cs = CHR 0x22"
      | (arr) "hd cs \<noteq> CHR 0x22" "hd cs = CHR ''[''"
      | (obj) "hd cs \<noteq> CHR 0x22" "hd cs \<noteq> CHR ''[''" "hd cs = CHR ''{''"
      | (lit) "hd cs \<noteq> CHR 0x22" "hd cs \<noteq> CHR ''[''" "hd cs \<noteq> CHR ''{''"
      by blast
    then show ?thesis
    proof cases
      case str
      with p False obtain s where "parse_chars (tl cs) = Parsed s r"
        by (auto dest: map_parsed_rest)
      from parse_chars_shorter [OF this] False show ?thesis by (cases cs) simp_all
    next
      case arr
      show ?thesis
      proof (cases "skip_ws (tl cs) \<noteq> [] \<and> hd (skip_ws (tl cs)) = CHR '']''")
        case True
        with p False arr have "r = tl (skip_ws (tl cs))" by simp
        with True sk show ?thesis by (cases "skip_ws (tl cs)") simp_all
      next
        case no: False
        with p False arr obtain w where "parse_elements f (skip_ws (tl cs)) = Parsed w r"
          by (auto dest: map_parsed_rest)
        from El [OF this] sk show ?thesis by linarith
      qed
    next
      case obj
      show ?thesis
      proof (cases "skip_ws (tl cs) \<noteq> [] \<and> hd (skip_ws (tl cs)) = CHR ''}''")
        case True
        with p False obj have "r = tl (skip_ws (tl cs))" by simp
        with True sk show ?thesis by (cases "skip_ws (tl cs)") simp_all
      next
        case no: False
        with p False obj obtain w where "parse_members f [] (skip_ws (tl cs)) = Parsed w r"
          by (auto dest: map_parsed_rest)
        from Ml [OF this] sk show ?thesis by linarith
      qed
    next
      case lit
      with p False have
        "(take 4 cs = ''true'' \<and> r = drop 4 cs) \<or> (take 5 cs = ''false'' \<and> r = drop 5 cs)
         \<or> (take 4 cs = ''null'' \<and> r = drop 4 cs) \<or> (\<exists>n. parse_number cs = Parsed n r)"
        by (auto split: if_splits dest: map_parsed_rest)
      then show ?thesis
        using take_literal [of 4 cs "''true''"] take_literal [of 5 cs "''false''"]
              take_literal [of 4 cs "''null''"] parse_number_shorter [of cs _ r]
        by auto
    qed
  qed
qed

lemma elements_step:
  assumes ok: "fuel_ok f"
  shows "2 * length cs + 1 < Suc f \<Longrightarrow> parse_elements (Suc f) cs \<noteq> NoFuel"
    and "parse_elements (Suc f) cs = Parsed vs r \<Longrightarrow> length r < length cs"
proof -
  note V = fuel_okD(1) [OF ok] and Vl = fuel_okD(2) [OF ok]
    and E = fuel_okD(3) [OF ok] and El = fuel_okD(4) [OF ok]
  show "parse_elements (Suc f) cs \<noteq> NoFuel" if b: "2 * length cs + 1 < Suc f"
  proof (cases "parse_value f cs")
    case (Parsed v r1)
    note l = Vl [OF Parsed]
    show ?thesis
    proof (cases "skip_ws r1 \<noteq> [] \<and> hd (skip_ws r1) = CHR '',''")
      case True
      then have "length (skip_ws (tl (skip_ws r1))) < length r1"
        using skip_tl_skip_shorter [of r1] by simp
      with l b have "2 * length (skip_ws (tl (skip_ws r1))) + 1 < f" by linarith
      from E [OF this] Parsed True show ?thesis by simp
    next
      case False
      with Parsed show ?thesis by auto
    qed
  next
    case NoFuel
    moreover from b have "2 * length cs < f" by simp
    ultimately show ?thesis using V by blast
  qed simp_all
  show "length r < length cs" if p: "parse_elements (Suc f) cs = Parsed vs r"
  proof (cases "parse_value f cs")
    case (Parsed v r1)
    note l = Vl [OF Parsed]
    show ?thesis
    proof (cases "skip_ws r1 \<noteq> [] \<and> hd (skip_ws r1) = CHR '',''")
      case True
      with p Parsed obtain w where "parse_elements f (skip_ws (tl (skip_ws r1))) = Parsed w r"
        by (auto dest: map_parsed_rest)
      from El [OF this] skip_tl_skip_shorter [of r1] True l show ?thesis by simp
    next
      case False
      with p Parsed have "skip_ws r1 \<noteq> []" and "r = tl (skip_ws r1)"
        by (auto split: if_splits)
      with tl_skip_shorter [of r1] l show ?thesis by simp
    qed
  qed (use p in simp_all)
qed

lemma members_step:
  assumes ok: "fuel_ok f"
  shows "2 * length cs + 1 < Suc f \<Longrightarrow> parse_members (Suc f) acc cs \<noteq> NoFuel"
    and "parse_members (Suc f) acc cs = Parsed kvs r \<Longrightarrow> length r < length cs"
proof -
  note V = fuel_okD(1) [OF ok] and Vl = fuel_okD(2) [OF ok]
    and M = fuel_okD(5) [OF ok] and Ml = fuel_okD(6) [OF ok]
  show "parse_members (Suc f) acc cs \<noteq> NoFuel" if b: "2 * length cs + 1 < Suc f"
  proof (cases "cs = [] \<or> hd cs \<noteq> CHR 0x22")
    case True
    then show ?thesis by simp
  next
    case start: False
    show ?thesis
    proof (cases "parse_chars (tl cs)")
      case (Parsed k r1)
      from parse_chars_shorter [OF Parsed] start have l1: "length r1 < length cs"
        by (cases cs) simp_all
      show ?thesis
      proof (cases "skip_ws r1 = [] \<or> hd (skip_ws r1) \<noteq> CHR '':''")
        case True
        with start Parsed show ?thesis by simp
      next
        case colon: False
        let ?a = "skip_ws (tl (skip_ws r1))"
        from colon have l2: "length ?a < length r1"
          using skip_tl_skip_shorter [of r1] by simp
        show ?thesis
        proof (cases "parse_value f ?a")
          case val: (Parsed v r2)
          note l3 = Vl [OF val]
          show ?thesis
          proof (cases "skip_ws r2 \<noteq> [] \<and> hd (skip_ws r2) = CHR '',''")
            case True
            then have "length (skip_ws (tl (skip_ws r2))) < length r2"
              using skip_tl_skip_shorter [of r2] by simp
            with l1 l2 l3 b have "2 * length (skip_ws (tl (skip_ws r2))) + 1 < f" by linarith
            from M [OF this] start Parsed colon val True show ?thesis by simp
          next
            case False
            with start Parsed colon val show ?thesis by auto
          qed
        next
          case NoFuel
          moreover from b l1 l2 have "2 * length ?a < f" by linarith
          ultimately show ?thesis using V by blast
        qed (use start Parsed colon in simp_all)
      qed
    next
      case NoFuel
      then show ?thesis using parse_chars_fuel by blast
    qed (use start in simp_all)
  qed
  show "length r < length cs" if p: "parse_members (Suc f) acc cs = Parsed kvs r"
  proof (cases "cs = [] \<or> hd cs \<noteq> CHR 0x22")
    case True
    with p show ?thesis by simp
  next
    case start: False
    show ?thesis
    proof (cases "parse_chars (tl cs)")
      case (Parsed k r1)
      from parse_chars_shorter [OF Parsed] start have l1: "length r1 < length cs"
        by (cases cs) simp_all
      show ?thesis
      proof (cases "skip_ws r1 = [] \<or> hd (skip_ws r1) \<noteq> CHR '':''")
        case True
        with p start Parsed show ?thesis by simp
      next
        case colon: False
        let ?a = "skip_ws (tl (skip_ws r1))"
        from colon have l2: "length ?a < length r1"
          using skip_tl_skip_shorter [of r1] by simp
        show ?thesis
        proof (cases "parse_value f ?a")
          case val: (Parsed v r2)
          note l3 = Vl [OF val]
          show ?thesis
          proof (cases "skip_ws r2 \<noteq> [] \<and> hd (skip_ws r2) = CHR '',''")
            case True
            with p start Parsed colon val
            have "parse_members f (AList.update k v acc) (skip_ws (tl (skip_ws r2))) = Parsed kvs r"
              by simp
            from Ml [OF this] skip_tl_skip_shorter [of r2] True l1 l2 l3 show ?thesis by simp
          next
            case False
            with p start Parsed colon val have "skip_ws r2 \<noteq> []" and "r = tl (skip_ws r2)"
              by (auto split: if_splits)
            with tl_skip_shorter [of r2] l1 l2 l3 show ?thesis by simp
          qed
        qed (use p start Parsed colon in simp_all)
      qed
    qed (use p start in simp_all)
  qed
qed

lemma fuel_ok_all: "fuel_ok f"
proof (induction f)
  case 0
  show ?case by (simp add: fuel_ok_def)
next
  case (Suc f)
  show ?case
    unfolding fuel_ok_def
    using value_step [OF Suc] elements_step [OF Suc] members_step [OF Suc]
    by blast
qed

lemma parse_value_fuel: "2 * length cs < f \<Longrightarrow> parse_value f cs \<noteq> NoFuel"
  using fuel_okD(1) [OF fuel_ok_all] .

section \<open>The stored list read back\<close>

text \<open>
  \<open>JSON.parse (JSON.stringify v)\<close> is \<open>v\<close> for a storable \<open>v\<close>, so the text that the
  write-back effect stores for receipts with finite totals is loaded as those receipts.
\<close>

lemma JSON_parse_stringify:
  assumes "storable v"
  shows "JSON_parse (stringify v) = Parsed v []"
proof -
  let ?s = "stringify v"
  from stringify_start [OF assms] have st: "?s \<noteq> []" "\<not> is_json_ws (hd ?s)"
    using starts_value_not by blast+
  have "skip_ws (?s @ []) = ?s @ []"
    using st by (rule skip_ws_start)
  then have sk: "skip_ws ?s = ?s"
    by (simp only: append_Nil2)
  have e: "skip_ws [] = []"
    by (simp add: skip_ws_def)
  have f: "follows []"
    by (simp add: follows_def)
  have "2 * length ?s < Suc (2 * length ?s)"
    by (rule lessI)
  then have "parse_value (Suc (2 * length ?s)) ?s \<noteq> NoFuel"
    by (rule parse_value_fuel)
  then have "parse_value (Suc (2 * length ?s)) ?s = Parsed v []"
    by (rule parse_value_stringify [OF assms f, of "Suc (2 * length ?s)", unfolded append_Nil2])
  then show ?thesis
    unfolding JSON_parse_def by (simp only: sk e parsed.case refl if_True)
qed

lemma stringify_present: "stringify (present v) = stringify v"
  by (cases v) simp_all

lemma storable_present_receipt:
  "finite_number (total r) \<Longrightarrow> storable (present (receipt_object r))"
  by (cases "imageUrl r") (simp_all add: receipt_object_def)

lemma status_of_text_status_text: "status_of_text (status_text st) = Some st"
  by (cases st) (simp_all add: status_of_text_def)

lemma as_receipt_present: "as_receipt (present (receipt_object r)) = Some r"
  by (cases "imageUrl r")
     (simp_all add: receipt_object_def as_receipt_def receipt_keys_def str_field_def
        num_field_def status_of_text_status_text)

lemma those_as_receipt:
  "those (map (\<lambda>r. as_receipt (present (receipt_object r))) rs) = Some rs"
  by (induction rs) (simp_all add: as_receipt_present del: present.simps)

lemma mount_persisted:
  assumes "list_all (\<lambda>r. finite_number (total r)) rs"
  shows "mount (Some (stringify (VArr (map receipt_object rs))))
         = Running ((initial (Some (stringify (VArr (map receipt_object rs)))))\<lparr>receipts := rs\<rparr>)"
proof -
  let ?t = "stringify (VArr (map receipt_object rs))"
  let ?v = "VArr (map (\<lambda>r. present (receipt_object r)) rs)"
  have eq: "?t = stringify ?v"
    by (simp only: stringify.simps(6) map_map comp_def stringify_present)
  have "list_all storable (map (\<lambda>r. present (receipt_object r)) rs)"
    using assms by (induction rs) (simp_all add: storable_present_receipt del: present.simps)
  then have "storable ?v"
    by (simp only: storable.simps(6))
  then have "JSON_parse (stringify ?v) = Parsed ?v []"
    by (rule JSON_parse_stringify)
  then have p: "JSON_parse ?t = Parsed ?v []"
    by (simp only: eq)
  have ne: "?t \<noteq> []"
    by (simp only: stringify.simps(6)) simp
  have a: "as_receipts ?v = Some rs"
    by (simp add: as_receipts_def those_as_receipt comp_def del: present.simps)
  have "mount (Some ?t) = Running (persist ((initial (Some ?t))\<lparr>receipts := rs\<rparr>))"
    unfolding mount_def by (simp only: ne p a option.case parsed.case if_False)
  also have "persist ((initial (Some ?t))\<lparr>receipts := rs\<rparr>) = (initial (Some ?t))\<lparr>receipts := rs\<rparr>"
    by (simp add: persist_def JSON_stringify_def initial_def del: stringify.simps)
  finally show ?thesis .
qed

text \<open>
  The total that the form produces is a finite number in normal form or an infinity.
\<close>

lemma strip_zeros_canonical:
  assumes lt: "list_all (\<lambda>d. d < 10) ds" and ne: "strip_zeros ds \<noteq> []"
  shows "canonical (strip_zeros ds)"
proof -
  let ?Z = "\<lambda>d::nat. d = 0"
  let ?xs = "dropWhile ?Z ds"
  let ?ys = "dropWhile ?Z (rev ?xs)"
  have s: "strip_zeros ds = rev ?ys" by (simp add: strip_zeros_def)
  from ne s have ys: "?ys \<noteq> []" by simp
  then have xs: "?xs \<noteq> []" by (cases "?xs = []") simp_all
  have "rev ?xs = takeWhile ?Z (rev ?xs) @ ?ys" by simp
  then have "rev (rev ?xs) = rev (takeWhile ?Z (rev ?xs) @ ?ys)" by (rule arg_cong)
  then have split: "?xs = rev ?ys @ rev (takeWhile ?Z (rev ?xs))" by (simp only: rev_rev_ident rev_append)
  have "hd (rev ?ys) = hd ?xs"
    using ys by (subst (2) split) simp
  moreover have "hd ?xs \<noteq> 0" using xs by (rule hd_dropWhile)
  ultimately have h: "hd (rev ?ys) \<noteq> 0" by simp
  have "last (rev ?ys) = hd ?ys" using ys by (simp add: last_rev)
  moreover have "hd ?ys \<noteq> 0" using ys by (rule hd_dropWhile)
  ultimately have l: "last (rev ?ys) \<noteq> 0" by simp
  have "set (rev ?ys) \<subseteq> set ds"
  proof
    fix x assume "x \<in> set (rev ?ys)"
    then have "x \<in> set ?ys" by simp
    then have "x \<in> set (rev ?xs)" by (rule set_dropWhileD)
    then have "x \<in> set ?xs" by simp
    then show "x \<in> set ds" by (rule set_dropWhileD)
  qed
  with lt have a: "list_all (\<lambda>d. d < 10) (rev ?ys)"
    by (auto simp: list_all_iff)
  from ys h l a show ?thesis unfolding s canonical_def by simp
qed

lemma number_value_shape:
  assumes "list_all (\<lambda>d. d < 10) ds"
  shows "finite_number (number_value neg ds p) \<or> number_value neg ds p = Infinite neg"
  using strip_zeros_canonical [OF assms]
  by (simp add: number_value_def to_double_def)

lemma digit_val_lt10: "list_all is_digit cs \<Longrightarrow> list_all (\<lambda>d. d < 10) (map digit_val cs)"
  by (auto simp: list_all_iff is_digit_def digit_val_def)

lemma str_unsigned_shape:
  "str_unsigned neg r = NaN \<or> str_unsigned neg r = Infinite neg \<or> finite_number (str_unsigned neg r)"
proof (cases "take 8 r = ''Infinity''")
  case True
  then show ?thesis by (simp add: str_unsigned_def)
next
  case False
  define ip where "ip = takeWhile is_digit r"
  define r1 where "r1 = dropWhile is_digit r"
  define fp where "fp = (if r1 \<noteq> [] \<and> hd r1 = CHR ''.'' then takeWhile is_digit (tl r1) else [])"
  define r2 where "r2 = (if r1 \<noteq> [] \<and> hd r1 = CHR ''.'' then dropWhile is_digit (tl r1) else r1)"
  define p where "p = int (length ip) + (case exponent_part r2 of Some (e, r3) \<Rightarrow> e | None \<Rightarrow> 0)"
  have "list_all is_digit (ip @ fp)"
    by (auto simp: ip_def fp_def list_all_iff dest: set_takeWhileD)
  then have "list_all (\<lambda>d. d < 10) (map digit_val (ip @ fp))"
    by (rule digit_val_lt10)
  from number_value_shape [OF this, of neg p]
  have "finite_number (number_value neg (map digit_val (ip @ fp)) p)
        \<or> number_value neg (map digit_val (ip @ fp)) p = Infinite neg" .
  moreover have "str_unsigned neg r
      = (if ip = [] \<and> fp = [] then NaN else number_value neg (map digit_val (ip @ fp)) p)"
    using False unfolding str_unsigned_def ip_def r1_def fp_def r2_def p_def Let_def by simp
  ultimately show ?thesis by auto
qed

lemma parseFloat_shape:
  "parseFloat s = NaN \<or> (\<exists>neg. parseFloat s = Infinite neg) \<or> finite_number (parseFloat s)"
  using str_unsigned_shape [of True "tl (dropWhile is_js_space s)"]
        str_unsigned_shape [of False "tl (dropWhile is_js_space s)"]
        str_unsigned_shape [of False "dropWhile is_js_space s"]
  unfolding parseFloat_def Let_def by auto

lemma handleSubmit_total_shape:
  "finite_number (total (handleSubmit t d fd)) \<or> (\<exists>neg. total (handleSubmit t d fd) = Infinite neg)"
  using parseFloat_shape [of "f_total fd"]
  by (auto simp: handleSubmit_def num_or_def)

lemma saveReceipt_receipts: "receipts (saveReceipt r s) = r # receipts s"
  by (simp add: saveReceipt_def persist_def)

lemma saveReceipt_storage:
  "storage (saveReceipt r s) = Some (stringify (VArr (map receipt_object (r # receipts s))))"
  by (simp add: saveReceipt_def persist_def JSON_stringify_def del: stringify.simps)

text \<open>
  Claim C3, as the code has it. \<open>saveReceipt\<close> puts the record first and leaves the
  earlier receipts behind it unchanged, and the write-back effect stores the text of the
  whole list at once. When every total in the list is finite, starting the application
  on that slot gives exactly that list; so after saving \<open>r1\<close> and then \<open>r2\<close> into an empty
  list, with finite totals, a fresh start has \<open>[r2, r1]\<close>. Every total that the form
  produces is finite or an infinity.
\<close>

theorem saveReceipt_roundtrip:
  "receipts (saveReceipt r s) = r # receipts s
   \<and> storage (saveReceipt r s) = Some (stringify (VArr (map receipt_object (r # receipts s))))
   \<and> (list_all (\<lambda>x. finite_number (total x)) (r # receipts s) \<longrightarrow>
        mount (storage (saveReceipt r s))
          = Running ((initial (storage (saveReceipt r s)))\<lparr>receipts := r # receipts s\<rparr>))
   \<and> (receipts s = [] \<and> finite_number (total r1) \<and> finite_number (total r2) \<longrightarrow>
        mount (storage (saveReceipt r2 (saveReceipt r1 s)))
          = Running ((initial (storage (saveReceipt r2 (saveReceipt r1 s))))\<lparr>receipts := [r2, r1]\<rparr>))
   \<and> (finite_number (total (handleSubmit t d fd))
        \<or> (\<exists>neg. total (handleSubmit t d fd) = Infinite neg))"
proof -
  have a: "mount (storage (saveReceipt r s))
          = Running ((initial (storage (saveReceipt r s)))\<lparr>receipts := r # receipts s\<rparr>)"
    if "list_all (\<lambda>x. finite_number (total x)) (r # receipts s)" for r s
    unfolding saveReceipt_storage using that by (rule mount_persisted)
  have b: "mount (storage (saveReceipt r2 (saveReceipt r1 s)))
          = Running ((initial (storage (saveReceipt r2 (saveReceipt r1 s))))\<lparr>receipts := [r2, r1]\<rparr>)"
    if "receipts s = []" "finite_number (total r1)" "finite_number (total r2)"
  proof -
    have rs: "r2 # receipts (saveReceipt r1 s) = [r2, r1]"
      using that(1) by (simp add: saveReceipt_receipts)
    have "list_all (\<lambda>x. finite_number (total x)) (r2 # receipts (saveReceipt r1 s))"
      unfolding rs using that by simp
    from a [OF this] show ?thesis unfolding rs .
  qed
  show ?thesis
    using saveReceipt_receipts [of r s] saveReceipt_storage [of r s] a [of r s] b
      handleSubmit_total_shape [of t d fd]
    by blast
qed

theorem saveReceipt_roundtrip_witness:
  "receipts (initial None) = [] \<and> finite_number (total lunch) \<and> finite_number (total taxi)
   \<and> mount (storage (saveReceipt lunch (initial None)))
       = Running ((initial (storage (saveReceipt lunch (initial None))))\<lparr>receipts := [lunch]\<rparr>)
   \<and> receipts (saveReceipt taxi (saveReceipt lunch (initial None))) = [taxi, lunch]
   \<and> mount (storage (saveReceipt taxi (saveReceipt lunch (initial None))))
       = Running ((initial (storage (saveReceipt taxi (saveReceipt lunch (initial None)))))
                    \<lparr>receipts := [taxi, lunch]\<rparr>)"
proof -
  have e: "receipts (initial None) = []" by (simp add: initial_def)
  have f1: "finite_number (total lunch)" by code_simp
  have f2: "finite_number (total taxi)" by code_simp
  from e f1 have l: "list_all (\<lambda>x. finite_number (total x)) (lunch # receipts (initial None))"
    by simp
  from saveReceipt_roundtrip [of lunch "initial None"] l
  have m1: "mount (storage (saveReceipt lunch (initial None)))
       = Running ((initial (storage (saveReceipt lunch (initial None))))
                    \<lparr>receipts := lunch # receipts (initial None)\<rparr>)"
    by blast
  have r1: "receipts (saveReceipt lunch (initial None)) = [lunch]"
    using saveReceipt_roundtrip [of lunch "initial None"] e by simp
  have r2: "receipts (saveReceipt taxi (saveReceipt lunch (initial None))) = [taxi, lunch]"
    using saveReceipt_roundtrip [of taxi "saveReceipt lunch (initial None)"] r1 by simp
  from saveReceipt_roundtrip [of _ "initial None" lunch taxi] e f1 f2
  have m2: "mount (storage (saveReceipt taxi (saveReceipt lunch (initial None))))
       = Running ((initial (storage (saveReceipt taxi (saveReceipt lunch (initial None)))))
                    \<lparr>receipts := [taxi, lunch]\<rparr>)"
    by blast
  from m1 have m1': "mount (storage (saveReceipt lunch (initial None)))
       = Running ((initial (storage (saveReceipt lunch (initial None))))\<lparr>receipts := [lunch]\<rparr>)"
    by (simp only: e)
  from e f1 f2 m1' r2 m2 show ?thesis by blast
qed

text \<open>
  Claim C3 as stated fails for a record whose total is not finite. The total text
  \<open>1e400\<close> is saved as an infinity, \<open>JSON.stringify\<close> writes it as \<open>null\<close>, and a fresh
  start reads an object whose total is \<open>null\<close>, not the record that was saved.
\<close>

theorem infinite_total_counterexample:
  "total jackpot = Infinite False
   \<and> receipts (saveReceipt jackpot (saveReceipt lunch (initial None))) = [jackpot, lunch]
   \<and> mount (storage (saveReceipt jackpot (saveReceipt lunch (initial None))))
       = Untyped
           (VArr
             [VObj [(''id'', VStr ''1793583399000''), (''date'', VStr ''2026-11-02''),
                    (''merchant'', VStr ''Lotto''), (''total'', VNull),
                    (''category'', VStr ''Other''), (''paymentSource'', VStr ''Credit Card''),
                    (''status'', VStr ''pending'')],
              VObj [(''id'', VStr ''1793583309000''), (''date'', VStr ''2026-11-02''),
                    (''merchant'', VStr ''Cafe Luna''), (''total'', VNum (Decimal False [1, 2, 5] 2)),
                    (''category'', VStr ''Other''), (''paymentSource'', VStr ''Credit Card''),
                    (''status'', VStr ''pending'')]])"
  by code_simp

end
